theory Spec2Isabelle
  imports Main "HOL-Library.Sublist"
begin

section \<open>YAML traversal service: the outline builder, the key finder, the property reader\<close>

text \<open>
  A shallow embedding of \<^verbatim>\<open>language-service/src/services/yamlTraversal.ts\<close>
  (class \<^verbatim>\<open>YAMLTraversal\<close>): \<^verbatim>\<open>getObjectTree\<close>, \<^verbatim>\<open>_flattenArrays\<close>,
  \<^verbatim>\<open>findNodes\<close> and \<^verbatim>\<open>getNodePropertyValues\<close>.
  The promise wrapper \<^verbatim>\<open>this.promise.resolve(x)\<close> is the value \<open>x\<close>; a JavaScript
  \<^verbatim>\<open>TypeError\<close> (a property read on \<^verbatim>\<open>null\<close> or \<^verbatim>\<open>undefined\<close>) is the value
  \<open>Inl TypeError\<close>.
\<close>

subsection \<open>Collaborators: positions, documents, the syntax tree\<close>

datatype error = TypeError

record Position =
  line :: nat
  character :: nat

text \<open>\<^verbatim>\<open>TextDocument\<close> of vscode-languageserver-types: the two conversions the service calls.\<close>

record TextDocument =
  positionAt :: "nat \<Rightarrow> Position"
  offsetAt :: "Position \<Rightarrow> nat"

text \<open>What \<^verbatim>\<open>getValue()\<close> reads out of a node: a scalar or a structured value.\<close>

datatype jsvalue =
    JNull
  | JString string
  | JNumber int
  | JBoolean bool
  | JArray "jsvalue list"
  | JObject "(string \<times> jsvalue) list"

text \<open>
  Modelled from the spec: the classes of \<^verbatim>\<open>../parser/jsonParser\<close> are not part of the
  sources at hand. The spec gives the kinds Object, Array, Property and Value; every node
  has a start and an end offset; an Object node exposes its property list, an Array node
  its \<^verbatim>\<open>location\<close> tag, a Property node its key name and its value node.
  The arguments are: start, end, then what the kind adds.
\<close>

datatype ASTNode =
    ObjectASTNode nat nat "ASTNode list"
  | ArrayASTNode nat nat string "ASTNode list"
  | PropertyASTNode nat nat string ASTNode
  | ValueASTNode nat nat jsvalue

fun nstart :: "ASTNode \<Rightarrow> nat" where
  "nstart (ObjectASTNode s e props) = s"
| "nstart (ArrayASTNode s e loc items) = s"
| "nstart (PropertyASTNode s e k v) = s"
| "nstart (ValueASTNode s e x) = s"

fun nend :: "ASTNode \<Rightarrow> nat" where
  "nend (ObjectASTNode s e props) = e"
| "nend (ArrayASTNode s e loc items) = e"
| "nend (PropertyASTNode s e k v) = e"
| "nend (ValueASTNode s e x) = e"

fun childNodes :: "ASTNode \<Rightarrow> ASTNode list" where
  "childNodes (ObjectASTNode s e props) = props"
| "childNodes (ArrayASTNode s e loc items) = items"
| "childNodes (PropertyASTNode s e k v) = [v]"
| "childNodes (ValueASTNode s e x) = []"

fun isObject :: "ASTNode \<Rightarrow> bool" where
  "isObject (ObjectASTNode s e props) = True"
| "isObject n = False"

text \<open>
  Modelled from the spec: \<^verbatim>\<open>getValue()\<close>, "a scalar or structured read-out" of a node.
  An object reads out as its key/value entries, an array as its items.
\<close>

fun getValue :: "ASTNode \<Rightarrow> jsvalue"
  and getEntry :: "ASTNode \<Rightarrow> (string \<times> jsvalue) list" where
  "getValue (ValueASTNode s e x) = x"
| "getValue (ArrayASTNode s e loc items) = JArray (map getValue items)"
| "getValue (ObjectASTNode s e props) = JObject (concat (map getEntry props))"
| "getValue (PropertyASTNode s e k v) = getValue v"
| "getEntry (PropertyASTNode s e k v) = [(k, getValue v)]"
| "getEntry (ObjectASTNode s e props) = []"
| "getEntry (ArrayASTNode s e loc items) = []"
| "getEntry (ValueASTNode s e x) = []"

text \<open>
  A reference to a node of the tree is its path from the root, nearest step first: the
  root is \<open>[]\<close>, the \<open>i\<close>-th child of the node at \<open>p\<close> is \<open>i # p\<close>. So
  \<^verbatim>\<open>node.parent\<close> is the tail of the path, and the parent of the root is \<^verbatim>\<open>null\<close>.
\<close>

type_synonym ptr = "nat list"

fun parent :: "ptr \<Rightarrow> ptr option" where
  "parent [] = None"
| "parent (i # p) = Some p"

fun deref :: "ASTNode \<Rightarrow> ptr \<Rightarrow> ASTNode option" where
  "deref rt [] = Some rt"
| "deref rt (i # p) =
     (case deref rt p of
        None \<Rightarrow> None
      | Some n \<Rightarrow> if i < length (childNodes n) then Some (childNodes n ! i) else None)"

text \<open>
  Modelled from the spec: \<^verbatim>\<open>JSONDocument.visit\<close>, "a depth-first visitor over the AST
  that unconditionally recurses into every node's children", in document (pre-)order.
  The visitors of this file return \<^verbatim>\<open>true\<close> on every path, so a visitor is the state
  change it makes; it receives the node and the reference to it.
\<close>

fun visit :: "(ptr \<Rightarrow> ASTNode \<Rightarrow> 's \<Rightarrow> 's) \<Rightarrow> ptr \<Rightarrow> ASTNode \<Rightarrow> 's \<Rightarrow> 's"
  and visitChildren :: "(ptr \<Rightarrow> ASTNode \<Rightarrow> 's \<Rightarrow> 's) \<Rightarrow> ptr \<Rightarrow> nat \<Rightarrow> ASTNode list \<Rightarrow> 's \<Rightarrow> 's" where
  "visit f p (ObjectASTNode s e props) st =
     visitChildren f p 0 props (f p (ObjectASTNode s e props) st)"
| "visit f p (ArrayASTNode s e loc items) st =
     visitChildren f p 0 items (f p (ArrayASTNode s e loc items) st)"
| "visit f p (PropertyASTNode s e k v) st =
     visit f (0 # p) v (f p (PropertyASTNode s e k v) st)"
| "visit f p (ValueASTNode s e x) st = f p (ValueASTNode s e x) st"
| "visitChildren f p i [] st = st"
| "visitChildren f p i (c # cs) st = visitChildren f p (Suc i) cs (visit f (i # p) c st)"

record JSONDocument =
  root :: ASTNode

record YAMLDocument =
  documents :: "JSONDocument list"

text \<open>
  \<^verbatim>\<open>yamlDocument.documents.length > 0 ? yamlDocument.documents[0] : null\<close>
\<close>

fun firstDocument :: "YAMLDocument \<Rightarrow> JSONDocument option" where
  "firstDocument yamlDocument =
     (case documents yamlDocument of [] \<Rightarrow> None | d # ds \<Rightarrow> Some d)"

subsection \<open>The outline node and the flatten pass\<close>

text \<open>
  \<^verbatim>\<open>YamlObjectNode\<close>: key, value (here \<open>nodeValue\<close>), children, startPosition,
  endPosition, isArray (an absent \<^verbatim>\<open>isArray\<close> is \<open>False\<close>: the code only tests it for
  truth). The value is what \<^verbatim>\<open>getValue()\<close> gave, \<^verbatim>\<open>null\<close> or the string of the root.
\<close>

datatype YamlObjectNode =
  YamlObjectNode (key: string) (nodeValue: jsvalue) (children: "YamlObjectNode list")
    (startPosition: Position) (endPosition: Position) (isArray: bool)

fun setChildren :: "YamlObjectNode \<Rightarrow> YamlObjectNode list \<Rightarrow> YamlObjectNode" where
  "setChildren (YamlObjectNode k v cs s e a) cs' = YamlObjectNode k v cs' s e a"

text \<open>
  The loop of \<^verbatim>\<open>_flattenArrays\<close> (lines 138 to 145). \<open>cs\<close> is the array
  \<^verbatim>\<open>node.children\<close>, whose objects the loop updates in place; \<open>new\<close> is
  \<^verbatim>\<open>newChildren\<close>, which holds references to those same objects and is kept here as
  the list of their indices in \<open>cs\<close>.
\<close>

function flattenLoop :: "nat \<Rightarrow> YamlObjectNode list \<Rightarrow> nat list \<Rightarrow> YamlObjectNode list \<times> nat list" where
  "flattenLoop i cs new =
     (if i < length cs then
        (if isArray (cs ! i) \<and> i \<noteq> 0 then
           flattenLoop (Suc i)
             (cs[i - 1 := setChildren (cs ! (i - 1)) (children (cs ! (i - 1)) @ children (cs ! i))])
             new
         else flattenLoop (Suc i) cs (new @ [i]))
      else (cs, new))"
  by pat_completeness auto
termination
  by (relation "measure (\<lambda>(i, cs, new). length cs - i)") auto

declare flattenLoop.simps [simp del]

text \<open>Lines 133 to 146: the new children of a node whose children are already flattened.\<close>

definition newChildren :: "YamlObjectNode list \<Rightarrow> YamlObjectNode list" where
  "newChildren cs =
     (if length cs = 1 \<and> isArray (cs ! 0) then children (cs ! 0)
      else (case flattenLoop 0 cs [] of (cs', new) \<Rightarrow> map (\<lambda>j. cs' ! j) new))"

fun flattenArrays :: "YamlObjectNode \<Rightarrow> YamlObjectNode" where
  "flattenArrays (YamlObjectNode k v cs s e a) =
     YamlObjectNode k v (newChildren (map flattenArrays cs)) s e a"

subsection \<open>Pass 1 of \<^verbatim>\<open>getObjectTree\<close>: the visitor and its state\<close>

text \<open>
  The outline objects made during the traversal are shared and updated in place
  (\<^verbatim>\<open>nodeMap[...].children.push(yamlNode)\<close>), so they live in a store: \<open>nodeMap\<close> maps
  the id of an object to the object, and the \<open>children\<close> of an object are the ids of
  its children. \<open>rootNode\<close> is the object \<^verbatim>\<open>root\<close>, \<open>tempId\<close> is the field
  \<^verbatim>\<open>tempId\<close> that the visitor writes on the nodes of the syntax tree. The fields of a
  stored object are those of \<^verbatim>\<open>YamlObjectNode\<close>, with the prefix \<open>n_\<close>.
\<close>

record yamlNode =
  n_key :: string
  n_value :: jsvalue
  n_children :: "nat list"
  n_startPosition :: Position
  n_endPosition :: Position
  n_isArray :: bool

record build_state =
  nodeMap :: "nat \<rightharpoonup> yamlNode"
  rootNode :: yamlNode
  currentId :: nat
  tempId :: "ptr \<rightharpoonup> nat"

text \<open>\<^verbatim>\<open>nodeMap[(q as any).tempId]\<close>, with the id: absent when \<open>q\<close> has no tag, or no entry.\<close>

fun mapped :: "build_state \<Rightarrow> ptr \<Rightarrow> (nat \<times> yamlNode) option" where
  "mapped st q =
     (case tempId st q of
        None \<Rightarrow> None
      | Some i \<Rightarrow> (case nodeMap st i of None \<Rightarrow> None | Some c \<Rightarrow> Some (i, c)))"

text \<open>
  Lines 55 to 58 and 97 to 100:
  \<^verbatim>\<open>while (parentObject && !nodeMap[parentObject.tempId]) parentObject = parentObject.parent\<close>.
  The result is the entry of the node the loop stops at, or \<open>None\<close> for \<^verbatim>\<open>null\<close>.
\<close>

fun nearestMapped :: "build_state \<Rightarrow> ptr option \<Rightarrow> (nat \<times> yamlNode) option" where
  "nearestMapped st None = None"
| "nearestMapped st (Some []) = mapped st []"
| "nearestMapped st (Some (i # p)) =
     (case mapped st (i # p) of Some r \<Rightarrow> Some r | None \<Rightarrow> nearestMapped st (Some p))"

text \<open>
  Lines 66 to 69 and 191 to 193:
  \<^verbatim>\<open>while (n && !(n instanceof Parser.ObjectASTNode)) n = n.parent\<close>.
\<close>

fun nearestObject :: "ASTNode \<Rightarrow> ptr option \<Rightarrow> ASTNode option" where
  "nearestObject rt None = None"
| "nearestObject rt (Some []) = (if isObject rt then Some rt else None)"
| "nearestObject rt (Some (i # p)) =
     (case deref rt (i # p) of
        Some n \<Rightarrow> if isObject n then Some n else nearestObject rt (Some p)
      | None \<Rightarrow> nearestObject rt (Some p))"

definition recognizedKey :: "string \<Rightarrow> bool" where
  "recognizedKey primaryKey \<longleftrightarrow>
     \<not> (primaryKey \<noteq> ''stage'' \<and> primaryKey \<noteq> ''task'' \<and> primaryKey \<noteq> ''script''
        \<and> primaryKey \<noteq> ''job'' \<and> primaryKey \<noteq> ''deployment'')"

definition recognizedLocation :: "string \<Rightarrow> bool" where
  "recognizedLocation location \<longleftrightarrow>
     \<not> (location \<noteq> ''stages'' \<and> location \<noteq> ''steps'' \<and> location \<noteq> ''jobs'')"

definition pushChild :: "(nat \<rightharpoonup> yamlNode) \<Rightarrow> nat \<Rightarrow> nat \<Rightarrow> (nat \<rightharpoonup> yamlNode)" where
  "pushChild m pid cid =
     (case m pid of
        Some c \<Rightarrow> m(pid \<mapsto> c\<lparr>n_children := n_children c @ [cid]\<rparr>)
      | None \<Rightarrow> m)"

text \<open>Lines 84 to 89 and 114 to 119: the new object goes under the entry found, or under root.\<close>

definition attach :: "build_state \<Rightarrow> (nat \<times> yamlNode) option \<Rightarrow> nat \<Rightarrow> build_state" where
  "attach st parentObject nodeId =
     (case parentObject of
        Some (pid, c) \<Rightarrow> st\<lparr>nodeMap := pushChild (nodeMap st) pid nodeId\<rparr>
      | None \<Rightarrow> st\<lparr>rootNode := (rootNode st)\<lparr>n_children := n_children (rootNode st) @ [nodeId]\<rparr>\<rparr>)"

text \<open>Lines 73, 74, 82 and 102, 103, 112: a fresh id, the tag on the node, the entry.\<close>

definition register :: "build_state \<Rightarrow> ptr \<Rightarrow> yamlNode \<Rightarrow> build_state" where
  "register st p y =
     st\<lparr>currentId := Suc (currentId st),
        tempId := (tempId st)(p \<mapsto> currentId st),
        nodeMap := (nodeMap st)(currentId st \<mapsto> y)\<rparr>"

text \<open>The callback of lines 48 to 123; \<open>rt\<close> is the root of the tree, \<open>p\<close> the reference to \<open>node\<close>.\<close>

fun visitor :: "TextDocument \<Rightarrow> ASTNode \<Rightarrow> ptr \<Rightarrow> ASTNode \<Rightarrow> build_state \<Rightarrow> build_state" where
  "visitor document rt p (PropertyASTNode s e primaryKey v) st =
     (if \<not> recognizedKey primaryKey then st
      else
        let parentObject = nearestMapped st (parent p) in
        if (case parentObject of Some (pid, c) \<Rightarrow> n_key c = ''task'' | None \<Rightarrow> False) then st
        else
          let parentObject2 = nearestObject rt (parent p);
              nodeForLength =
                (case parentObject2 of Some n \<Rightarrow> n | None \<Rightarrow> PropertyASTNode s e primaryKey v);
              primaryValue = getValue v;
              nodeId = currentId st;
              y = \<lparr>n_key = primaryKey, n_value = primaryValue, n_children = [],
                   n_startPosition = positionAt document (nstart nodeForLength),
                   n_endPosition = positionAt document (nend nodeForLength),
                   n_isArray = False\<rparr>
          in attach (register st p y) parentObject nodeId)"
| "visitor document rt p (ArrayASTNode s e location items) st =
     (if \<not> recognizedLocation location then st
      else
        let parentObject = nearestMapped st (parent p);
            nodeId = currentId st;
            y = \<lparr>n_key = location, n_value = JNull, n_children = [],
                 n_startPosition = positionAt document s,
                 n_endPosition = positionAt document e,
                 n_isArray = True\<rparr>
        in attach (register st p y) parentObject nodeId)"
| "visitor document rt p (ObjectASTNode s e props) st = st"
| "visitor document rt p (ValueASTNode s e x) st = st"

text \<open>Lines 38 to 46: the state before the traversal; \<open>tags\<close> are the tags the tree carries.\<close>

definition initialState :: "TextDocument \<Rightarrow> JSONDocument \<Rightarrow> (ptr \<rightharpoonup> nat) \<Rightarrow> build_state" where
  "initialState document jsonDocument tags =
     \<lparr>nodeMap = Map.empty,
      rootNode = \<lparr>n_key = ''root'', n_value = JString ''root'', n_children = [],
                  n_startPosition = positionAt document (nstart (root jsonDocument)),
                  n_endPosition = positionAt document (nend (root jsonDocument)),
                  n_isArray = False\<rparr>,
      currentId = 0,
      tempId = tags\<rparr>"

definition pass1 :: "TextDocument \<Rightarrow> JSONDocument \<Rightarrow> (ptr \<rightharpoonup> nat) \<Rightarrow> build_state" where
  "pass1 document jsonDocument tags =
     visit (visitor document (root jsonDocument)) [] (root jsonDocument)
       (initialState document jsonDocument tags)"

text \<open>
  The objects under a stored object, read back as a \<open>YamlObjectNode\<close> value. References are
  followed to the depth given by the first argument; \<open>None\<close> is a reference without an
  entry, or that depth used up.
\<close>

fun treeOf :: "nat \<Rightarrow> (nat \<rightharpoonup> yamlNode) \<Rightarrow> yamlNode \<Rightarrow> YamlObjectNode option"
  and treesOf :: "nat \<Rightarrow> (nat \<rightharpoonup> yamlNode) \<Rightarrow> nat list \<Rightarrow> YamlObjectNode list option" where
  "treeOf 0 m c = None"
| "treeOf (Suc d) m c =
     (case treesOf d m (n_children c) of
        None \<Rightarrow> None
      | Some ts \<Rightarrow>
          Some (YamlObjectNode (n_key c) (n_value c) ts (n_startPosition c) (n_endPosition c)
                  (n_isArray c)))"
| "treesOf d m [] = Some []"
| "treesOf d m (i # is) =
     (case m i of
        None \<Rightarrow> None
      | Some c \<Rightarrow>
          (case treeOf d m c of
             None \<Rightarrow> None
           | Some t \<Rightarrow> (case treesOf d m is of None \<Rightarrow> None | Some ts \<Rightarrow> Some (t # ts))))"

text \<open>The tree that pass 1 leaves under \<^verbatim>\<open>root\<close>, before line 125.\<close>

definition provisionalTree :: "build_state \<Rightarrow> YamlObjectNode option" where
  "provisionalTree st = treeOf (Suc (currentId st)) (nodeMap st) (rootNode st)"

text \<open>
  \<^verbatim>\<open>getObjectTree\<close>. Beside the root it returns the tags that the syntax tree carries
  after the call. Line 43 reads \<^verbatim>\<open>jsonDocument.root\<close> and calls \<^verbatim>\<open>document.positionAt\<close>
  before anything else: a \<^verbatim>\<open>null\<close> there is a \<^verbatim>\<open>TypeError\<close>. The outer \<open>None\<close> is
  the one of \<open>provisionalTree\<close>; it does not occur (\<open>getObjectTree_returns\<close> below).
\<close>

definition getObjectTree ::
  "TextDocument option \<Rightarrow> YAMLDocument \<Rightarrow> (ptr \<rightharpoonup> nat) \<Rightarrow>
     (error + YamlObjectNode \<times> (ptr \<rightharpoonup> nat)) option" where
  "getObjectTree document yamlDocument tags =
     (case firstDocument yamlDocument of
        None \<Rightarrow> Some (Inl TypeError)
      | Some jsonDocument \<Rightarrow>
          (case document of
             None \<Rightarrow> Some (Inl TypeError)
           | Some doc \<Rightarrow>
               let st = pass1 doc jsonDocument tags in
               (case provisionalTree st of
                  None \<Rightarrow> None
                | Some t \<Rightarrow> Some (Inr (flattenArrays t, tempId st)))))"

subsection \<open>The outline with the identity of its objects\<close>

text \<open>
  An outline node is a JavaScript object: pass 1 stores it in \<^verbatim>\<open>nodeMap\<close> under an id
  and writes that id on the node of the syntax tree it was made for (lines 73, 74, 82 and
  102, 103, 112); the flatten pass moves references to these objects and makes no new
  object. A \<open>YamlObjectNode\<close> value does not tell which object it is. \<open>OutlineObject\<close> is
  the same node together with that identity, \<open>objectId\<close>: the id of the object in
  \<^verbatim>\<open>nodeMap\<close>, and \<open>None\<close> for \<^verbatim>\<open>root\<close>, which has no entry there. \<open>withoutId\<close> gives the
  \<open>YamlObjectNode\<close> back.
\<close>

datatype OutlineObject =
  OutlineObject (objectId: "nat option") (objectKey: string) (objectValue: jsvalue)
    (objectChildren: "OutlineObject list") (objectStart: Position) (objectEnd: Position)
    (objectIsArray: bool)

fun withoutId :: "OutlineObject \<Rightarrow> YamlObjectNode" where
  "withoutId (OutlineObject i k v cs s e a) = YamlObjectNode k v (map withoutId cs) s e a"

text \<open>\<^verbatim>\<open>_flattenArrays\<close> (lines 130 to 149) on these objects: \<open>flattenLoop\<close>, \<open>newChildren\<close>
  and \<open>flattenArrays\<close> above, word for word.\<close>

fun setObjectChildren :: "OutlineObject \<Rightarrow> OutlineObject list \<Rightarrow> OutlineObject" where
  "setObjectChildren (OutlineObject i k v cs s e a) cs' = OutlineObject i k v cs' s e a"

function flattenObjectLoop ::
  "nat \<Rightarrow> OutlineObject list \<Rightarrow> nat list \<Rightarrow> OutlineObject list \<times> nat list" where
  "flattenObjectLoop i cs new =
     (if i < length cs then
        (if objectIsArray (cs ! i) \<and> i \<noteq> 0 then
           flattenObjectLoop (Suc i)
             (cs[i - 1 := setObjectChildren (cs ! (i - 1))
                            (objectChildren (cs ! (i - 1)) @ objectChildren (cs ! i))])
             new
         else flattenObjectLoop (Suc i) cs (new @ [i]))
      else (cs, new))"
  by pat_completeness auto
termination
  by (relation "measure (\<lambda>(i, cs, new). length cs - i)") auto

declare flattenObjectLoop.simps [simp del]

definition newObjectChildren :: "OutlineObject list \<Rightarrow> OutlineObject list" where
  "newObjectChildren cs =
     (if length cs = 1 \<and> objectIsArray (cs ! 0) then objectChildren (cs ! 0)
      else (case flattenObjectLoop 0 cs [] of (cs', new) \<Rightarrow> map (\<lambda>j. cs' ! j) new))"

fun flattenObjects :: "OutlineObject \<Rightarrow> OutlineObject" where
  "flattenObjects (OutlineObject i k v cs s e a) =
     OutlineObject i k v (newObjectChildren (map flattenObjects cs)) s e a"

text \<open>
  The objects under a stored object, read back as \<open>treeOf\<close> does, each with the id of the
  entry it is read from.
\<close>

fun objectOf :: "nat \<Rightarrow> (nat \<rightharpoonup> yamlNode) \<Rightarrow> nat option \<Rightarrow> yamlNode \<Rightarrow> OutlineObject option"
  and objectsOf :: "nat \<Rightarrow> (nat \<rightharpoonup> yamlNode) \<Rightarrow> nat list \<Rightarrow> OutlineObject list option" where
  "objectOf 0 m oid c = None"
| "objectOf (Suc d) m oid c =
     (case objectsOf d m (n_children c) of
        None \<Rightarrow> None
      | Some ts \<Rightarrow>
          Some (OutlineObject oid (n_key c) (n_value c) ts (n_startPosition c) (n_endPosition c)
                  (n_isArray c)))"
| "objectsOf d m [] = Some []"
| "objectsOf d m (i # is) =
     (case m i of
        None \<Rightarrow> None
      | Some c \<Rightarrow>
          (case objectOf d m (Some i) c of
             None \<Rightarrow> None
           | Some t \<Rightarrow> (case objectsOf d m is of None \<Rightarrow> None | Some ts \<Rightarrow> Some (t # ts))))"

definition provisionalObjects :: "build_state \<Rightarrow> OutlineObject option" where
  "provisionalObjects st = objectOf (Suc (currentId st)) (nodeMap st) None (rootNode st)"

text \<open>
  \<^verbatim>\<open>getObjectTree\<close>, returning the root as an \<open>OutlineObject\<close>: the same steps as in
  \<open>getObjectTree\<close> above, which returns the \<open>withoutId\<close> of this root
  (\<open>getObjectTree_withoutId\<close> below).
\<close>

definition getObjectTreeWithIds ::
  "TextDocument option \<Rightarrow> YAMLDocument \<Rightarrow> (ptr \<rightharpoonup> nat) \<Rightarrow>
     (error + OutlineObject \<times> (ptr \<rightharpoonup> nat)) option" where
  "getObjectTreeWithIds document yamlDocument tags =
     (case firstDocument yamlDocument of
        None \<Rightarrow> Some (Inl TypeError)
      | Some jsonDocument \<Rightarrow>
          (case document of
             None \<Rightarrow> Some (Inl TypeError)
           | Some doc \<Rightarrow>
               let st = pass1 doc jsonDocument tags in
               (case provisionalObjects st of
                  None \<Rightarrow> None
                | Some t \<Rightarrow> Some (Inr (flattenObjects t, tempId st)))))"

subsection \<open>\<^verbatim>\<open>findNodes\<close>\<close>

text \<open>\<^verbatim>\<open>YamlNodeInfo\<close>; its fields have the prefix \<open>i_\<close> here.\<close>

record YamlNodeInfo =
  i_startPosition :: Position
  i_endPosition :: Position
  i_key :: string
  i_value :: jsvalue

text \<open>\<^verbatim>\<open>node.parent\<close> as a node: \<open>None\<close> is \<^verbatim>\<open>null\<close>, the parent of the root.\<close>

fun parentNode :: "ASTNode \<Rightarrow> ptr \<Rightarrow> ASTNode option" where
  "parentNode rt [] = None"
| "parentNode rt (i # p) = deref rt p"

text \<open>
  The callback of lines 162 to 173. The state is the array \<^verbatim>\<open>nodes\<close>, or the
  \<^verbatim>\<open>TypeError\<close> that has left the traversal. Only a Property node has a \<^verbatim>\<open>key\<close>.
  Line 166 reads \<^verbatim>\<open>document.positionAt\<close> and \<^verbatim>\<open>node.parent.start\<close>.
\<close>

fun findVisitor ::
  "TextDocument option \<Rightarrow> ASTNode \<Rightarrow> string \<Rightarrow> ptr \<Rightarrow> ASTNode \<Rightarrow>
     error + YamlNodeInfo list \<Rightarrow> error + YamlNodeInfo list" where
  "findVisitor document rt key' p (PropertyASTNode s e k v) (Inr nodes) =
     (if k = key' then
        (case document of
           None \<Rightarrow> Inl TypeError
         | Some doc \<Rightarrow>
             (case parentNode rt p of
                None \<Rightarrow> Inl TypeError
              | Some pn \<Rightarrow>
                  Inr (nodes @
                    [\<lparr>i_startPosition = positionAt doc (nstart pn),
                      i_endPosition = positionAt doc (nend pn),
                      i_key = k,
                      i_value = getValue v\<rparr>])))
      else Inr nodes)"
| "findVisitor document rt key' p n acc = acc"

text \<open>
  \<^verbatim>\<open>findNodes\<close>. Lines 152 to 154 resolve a promise and go on (there is no
  \<^verbatim>\<open>return\<close>), so an absent document does not end the call there.
\<close>

definition findNodes ::
  "TextDocument option \<Rightarrow> YAMLDocument \<Rightarrow> string \<Rightarrow> error + YamlNodeInfo list" where
  "findNodes document yamlDocument key' =
     (case firstDocument yamlDocument of
        None \<Rightarrow> Inr []
      | Some jsonDocument \<Rightarrow>
          visit (findVisitor document (root jsonDocument) key') [] (root jsonDocument) (Inr []))"

subsection \<open>\<^verbatim>\<open>getNodePropertyValues\<close>\<close>

text \<open>\<^verbatim>\<open>values\<close> (here \<open>nodeValues\<close>) is \<^verbatim>\<open>null\<close> (\<open>None\<close>) or an object used as a dictionary.\<close>

record YamlNodePropertyValues =
  nodeValues :: "(string \<rightharpoonup> jsvalue) option"

text \<open>
  Modelled from the spec: \<^verbatim>\<open>JSONDocument.getNodeFromOffset\<close> "locates the AST node
  covering that offset"; here the last node in document order whose span holds the offset,
  \<open>None\<close> (\<^verbatim>\<open>null\<close>) when there is none.
\<close>

definition getNodeFromOffset :: "ASTNode \<Rightarrow> nat \<Rightarrow> ptr option" where
  "getNodeFromOffset rt offset =
     visit (\<lambda>p n found. if nstart n \<le> offset \<and> offset < nend n then Some p else found)
       [] rt None"

text \<open>\<^verbatim>\<open>(n as Parser.ObjectASTNode).properties\<close>: \<^verbatim>\<open>undefined\<close> on the other kinds.\<close>

fun properties :: "ASTNode \<Rightarrow> ASTNode list option" where
  "properties (ObjectASTNode s e props) = Some props"
| "properties n = None"

text \<open>\<^verbatim>\<open>p.key.value\<close>: only a Property node has a \<^verbatim>\<open>key\<close>.\<close>

fun keyValue :: "ASTNode \<Rightarrow> error + string" where
  "keyValue (PropertyASTNode s e k v) = Inr k"
| "keyValue n = Inl TypeError"

text \<open>Line 200: \<^verbatim>\<open>properties.filter(p => p.key.value === propertyName)\<close>.\<close>

fun filterByKey :: "string \<Rightarrow> ASTNode list \<Rightarrow> error + ASTNode list" where
  "filterByKey propertyName [] = Inr []"
| "filterByKey propertyName (p # ps) =
     (case keyValue p of
        Inl err \<Rightarrow> Inl err
      | Inr k \<Rightarrow>
          (case filterByKey propertyName ps of
             Inl err \<Rightarrow> Inl err
           | Inr r \<Rightarrow> Inr (if k = propertyName then p # r else r)))"

text \<open>
  Modelled from the spec: \<^verbatim>\<open>getValue()\<close> gives "a scalar or structured read-out", and
  the parser that builds it is not part of the sources at hand. \<open>keepsSetter x\<close> tells
  whether the object \<^verbatim>\<open>{}\<close> still inherits the accessor \<^verbatim>\<open>__proto__\<close> of
  \<^verbatim>\<open>Object.prototype\<close> after the setter of that accessor has run on it with the read-out
  \<open>x\<close>. The setter does nothing for a string, a number or a boolean; \<^verbatim>\<open>null\<close>, an array
  or an object becomes the prototype of \<^verbatim>\<open>{}\<close>. Below \<^verbatim>\<open>null\<close> nothing is inherited;
  below an array the accessor is (the prototype chain of an array ends in
  \<^verbatim>\<open>Object.prototype\<close>); the read-out of an Object node is taken to be a dictionary that
  inherits nothing.
\<close>

fun keepsSetter :: "jsvalue \<Rightarrow> bool" where
  "keepsSetter JNull = False"
| "keepsSetter (JObject entries) = False"
| "keepsSetter (JArray items) = True"
| "keepsSetter (JString x) = True"
| "keepsSetter (JNumber x) = True"
| "keepsSetter (JBoolean x) = True"

text \<open>
  Lines 206 to 210: \<^verbatim>\<open>valueMap[p.key.value] = p.value.getValue()\<close> for each property.
  \<^verbatim>\<open>valueMap\<close> is the plain object \<^verbatim>\<open>{}\<close>; the map is what it holds as its own entries,
  and \<open>setter\<close> tells whether it still inherits the accessor \<^verbatim>\<open>__proto__\<close>, as it does at
  line 206. An assignment stores or replaces the entry of the key, with the value as
  \<^verbatim>\<open>getValue()\<close> gives it (no conversion to a string is applied). The key
  \<^verbatim>\<open>__proto__\<close> is the exception while the accessor is inherited: the assignment then
  runs the setter, which stores no entry.
\<close>

fun collectValues ::
  "ASTNode list \<Rightarrow> (string \<rightharpoonup> jsvalue) \<Rightarrow> bool \<Rightarrow> error + (string \<rightharpoonup> jsvalue)" where
  "collectValues [] valueMap setter = Inr valueMap"
| "collectValues (PropertyASTNode s e k v # ps) valueMap setter =
     (if k = ''__proto__'' \<and> setter
      then collectValues ps valueMap (keepsSetter (getValue v))
      else collectValues ps (valueMap(k \<mapsto> getValue v)) setter)"
| "collectValues (n # ps) valueMap setter = Inl TypeError"

text \<open>Lines 206 to 214, for the single match \<open>p\<close>; the result holds the entries of \<^verbatim>\<open>valueMap\<close>.\<close>

fun readValues :: "ASTNode \<Rightarrow> error + YamlNodePropertyValues" where
  "readValues (PropertyASTNode s e k v) =
     (case properties v of
        None \<Rightarrow> Inr \<lparr>nodeValues = Some Map.empty\<rparr>
      | Some parameterValueArray \<Rightarrow>
          (case collectValues parameterValueArray Map.empty True of
             Inl err \<Rightarrow> Inl err
           | Inr valueMap \<Rightarrow> Inr \<lparr>nodeValues = Some valueMap\<rparr>))"
| "readValues n = Inl TypeError"

definition getNodePropertyValues ::
  "TextDocument option \<Rightarrow> YAMLDocument \<Rightarrow> Position \<Rightarrow> string \<Rightarrow>
     error + YamlNodePropertyValues" where
  "getNodePropertyValues document yamlDocument position propertyName =
     (case document of
        None \<Rightarrow> Inr \<lparr>nodeValues = None\<rparr>
      | Some doc \<Rightarrow>
          let offset = offsetAt doc position in
          (case firstDocument yamlDocument of
             None \<Rightarrow> Inr \<lparr>nodeValues = None\<rparr>
           | Some jsonDocument \<Rightarrow>
               (case nearestObject (root jsonDocument)
                       (getNodeFromOffset (root jsonDocument) offset) of
                  None \<Rightarrow> Inr \<lparr>nodeValues = None\<rparr>
                | Some node \<Rightarrow>
                    (case properties node of
                       None \<Rightarrow> Inl TypeError
                     | Some props \<Rightarrow>
                         (case filterByKey propertyName props of
                            Inl err \<Rightarrow> Inl err
                          | Inr propertiesArray \<Rightarrow>
                              if length propertiesArray \<noteq> 1 then Inr \<lparr>nodeValues = None\<rparr>
                              else readValues (propertiesArray ! 0))))))"

subsection \<open>The resolved root, and inputs used below\<close>

text \<open>What the promise of \<^verbatim>\<open>getObjectTree\<close> resolves to: the root alone.\<close>

definition outlineOf ::
  "TextDocument option \<Rightarrow> YAMLDocument \<Rightarrow> (ptr \<rightharpoonup> nat) \<Rightarrow> (error + YamlObjectNode) option" where
  "outlineOf document yamlDocument tags =
     map_option (map_sum id fst) (getObjectTree document yamlDocument tags)"

text \<open>A document of one line: offset \<open>n\<close> is column \<open>n\<close> of line 0.\<close>

definition lineDocument :: TextDocument where
  "lineDocument = \<lparr>positionAt = (\<lambda>n. \<lparr>line = 0, character = n\<rparr>), offsetAt = character\<rparr>"

text \<open>\<^verbatim>\<open>job: A\<close>\<close>

definition jobTree :: ASTNode where
  "jobTree = ObjectASTNode 0 6 [PropertyASTNode 0 6 ''job'' (ValueASTNode 5 6 (JString ''A''))]"

text \<open>The list item \<^verbatim>\<open>- script: x\<close> at offset \<open>s\<close>.\<close>

definition scriptStep :: "nat \<Rightarrow> string \<Rightarrow> ASTNode" where
  "scriptStep s x =
     ObjectASTNode s (s + 9)
       [PropertyASTNode s (s + 9) ''script'' (ValueASTNode (s + 8) (s + 9) (JString x))]"

text \<open>
  A deployment job with two lifecycle hooks, each with its steps:
  \<^verbatim>\<open>jobs: [{deployment: D, strategy: {runOnce: {preDeploy: {steps: [{script: a}]},
  deploy: {steps: [{script: b}]}}}}]\<close>
\<close>

definition deploymentTree :: ASTNode where
  "deploymentTree =
     ObjectASTNode 0 100 [PropertyASTNode 0 100 ''jobs'' (ArrayASTNode 6 100 ''jobs''
       [ObjectASTNode 8 100
          [PropertyASTNode 8 21 ''deployment'' (ValueASTNode 20 21 (JString ''D'')),
           PropertyASTNode 22 100 ''strategy'' (ObjectASTNode 32 100
             [PropertyASTNode 32 100 ''runOnce'' (ObjectASTNode 41 100
                [PropertyASTNode 41 70 ''preDeploy'' (ObjectASTNode 52 70
                   [PropertyASTNode 52 70 ''steps''
                      (ArrayASTNode 59 70 ''steps'' [scriptStep 61 ''a''])]),
                 PropertyASTNode 71 100 ''deploy'' (ObjectASTNode 79 100
                   [PropertyASTNode 79 100 ''steps''
                      (ArrayASTNode 86 100 ''steps'' [scriptStep 88 ''b''])])])])]])]"

text \<open>
  Two phases of the old schema, each with its steps:
  \<^verbatim>\<open>phases: [{phase: A, steps: [{script: a}]}, {phase: B, steps: [{script: b}]}]\<close>
\<close>

definition phasesTree :: ASTNode where
  "phasesTree =
     ObjectASTNode 0 80 [PropertyASTNode 0 80 ''phases'' (ArrayASTNode 8 80 ''phases''
       [ObjectASTNode 10 40
          [PropertyASTNode 10 18 ''phase'' (ValueASTNode 17 18 (JString ''A'')),
           PropertyASTNode 19 40 ''steps'' (ArrayASTNode 26 40 ''steps'' [scriptStep 28 ''a''])],
        ObjectASTNode 50 80
          [PropertyASTNode 50 58 ''phase'' (ValueASTNode 57 58 (JString ''B'')),
           PropertyASTNode 59 80 ''steps'' (ArrayASTNode 66 80 ''steps'' [scriptStep 68 ''b''])]])]"

text \<open>Outline nodes at column 0 of line 0, to build small outlines by hand.\<close>

definition leafNode :: "string \<Rightarrow> YamlObjectNode" where
  "leafNode k =
     YamlObjectNode k (JString k) [] \<lparr>line = 0, character = 0\<rparr> \<lparr>line = 0, character = 0\<rparr> False"

definition plainNode :: "string \<Rightarrow> YamlObjectNode list \<Rightarrow> YamlObjectNode" where
  "plainNode k cs =
     YamlObjectNode k (JString k) cs \<lparr>line = 0, character = 0\<rparr> \<lparr>line = 0, character = 0\<rparr> False"

definition wrapperNode :: "string \<Rightarrow> YamlObjectNode list \<Rightarrow> YamlObjectNode" where
  "wrapperNode k cs =
     YamlObjectNode k JNull cs \<lparr>line = 0, character = 0\<rparr> \<lparr>line = 0, character = 0\<rparr> True"

text \<open>
  A task step with inputs; the key \<^verbatim>\<open>a\<close> is given twice, and one key is \<^verbatim>\<open>__proto__\<close>:
  \<^verbatim>\<open>{task: Foo, inputs: {a: 1, __proto__: p, b: 2, a: 3}}\<close>
\<close>

definition taskInputsTree :: ASTNode where
  "taskInputsTree =
     ObjectASTNode 0 60
       [PropertyASTNode 0 9 ''task'' (ValueASTNode 6 9 (JString ''Foo'')),
        PropertyASTNode 10 60 ''inputs'' (ObjectASTNode 18 60
          [PropertyASTNode 18 22 ''a'' (ValueASTNode 21 22 (JString ''1'')),
           PropertyASTNode 23 35 ''__proto__'' (ValueASTNode 34 35 (JString ''p'')),
           PropertyASTNode 36 40 ''b'' (ValueASTNode 39 40 (JString ''2'')),
           PropertyASTNode 41 45 ''a'' (ValueASTNode 44 45 (JString ''3''))])]"

text \<open>
  A task step whose inputs have the key \<^verbatim>\<open>__proto__\<close> and a number, given twice:
  \<^verbatim>\<open>{task: Foo, inputs: {__proto__: x, retries: 1, retries: 3}}\<close>
\<close>

definition protoInputsTree :: ASTNode where
  "protoInputsTree =
     ObjectASTNode 0 60
       [PropertyASTNode 0 9 ''task'' (ValueASTNode 6 9 (JString ''Foo'')),
        PropertyASTNode 10 60 ''inputs'' (ObjectASTNode 18 60
          [PropertyASTNode 18 30 ''__proto__'' (ValueASTNode 29 30 (JString ''x'')),
           PropertyASTNode 31 41 ''retries'' (ValueASTNode 40 41 (JNumber 1)),
           PropertyASTNode 42 52 ''retries'' (ValueASTNode 51 52 (JNumber 3))])]"

text \<open>\<^verbatim>\<open>{task: Foo, inputs: x, inputs: y}\<close> and \<^verbatim>\<open>{task: Foo, inputs: x}\<close>\<close>

definition twoInputsTree :: ASTNode where
  "twoInputsTree =
     ObjectASTNode 0 50
       [PropertyASTNode 0 9 ''task'' (ValueASTNode 6 9 (JString ''Foo'')),
        PropertyASTNode 10 19 ''inputs'' (ValueASTNode 18 19 (JString ''x'')),
        PropertyASTNode 20 29 ''inputs'' (ValueASTNode 28 29 (JString ''y''))]"

definition scalarInputsTree :: ASTNode where
  "scalarInputsTree =
     ObjectASTNode 0 50
       [PropertyASTNode 0 9 ''task'' (ValueASTNode 6 9 (JString ''Foo'')),
        PropertyASTNode 10 19 ''inputs'' (ValueASTNode 18 19 (JString ''x''))]"

text \<open>\<^verbatim>\<open>steps: [{script: a}]\<close>\<close>

definition stepsTree :: ASTNode where
  "stepsTree =
     ObjectASTNode 0 20
       [PropertyASTNode 0 20 ''steps'' (ArrayASTNode 7 20 ''steps'' [scriptStep 9 ''a''])]"

text \<open>A task with an object for its value: \<^verbatim>\<open>task: {script: x}\<close>\<close>

definition taskScriptTree :: ASTNode where
  "taskScriptTree =
     ObjectASTNode 0 20 [PropertyASTNode 0 20 ''task''
       (ObjectASTNode 6 20
          [PropertyASTNode 6 15 ''script'' (ValueASTNode 14 15 (JString ''x''))])]"

text \<open>The same with a steps array in between: \<^verbatim>\<open>task: {steps: [{script: x}]}\<close>\<close>

definition taskStepsTree :: ASTNode where
  "taskStepsTree =
     ObjectASTNode 0 40 [PropertyASTNode 0 40 ''task''
       (ObjectASTNode 6 40
          [PropertyASTNode 6 40 ''steps'' (ArrayASTNode 13 40 ''steps'' [scriptStep 15 ''x''])])]"

text \<open>Two steps: \<^verbatim>\<open>steps: [{script: a}, {script: b}]\<close>\<close>

definition twoScriptsTree :: ASTNode where
  "twoScriptsTree =
     ObjectASTNode 0 30
       [PropertyASTNode 0 30 ''steps''
          (ArrayASTNode 7 30 ''steps'' [scriptStep 9 ''a'', scriptStep 20 ''b''])]"

text \<open>A job whose name is a number: \<^verbatim>\<open>job: 1\<close>\<close>

definition numberJobTree :: ASTNode where
  "numberJobTree = ObjectASTNode 0 6 [PropertyASTNode 0 6 ''job'' (ValueASTNode 5 6 (JNumber 1))]"

subsection \<open>Notions used to state the properties\<close>

text \<open>
  What the loop of \<^verbatim>\<open>_flattenArrays\<close> leaves in slot \<open>j\<close> of \<^verbatim>\<open>node.children\<close>: the
  child, with the children of the next one appended when that one is a wrapper; and the
  slots the loop pushes onto \<^verbatim>\<open>newChildren\<close>.
\<close>

definition absorbed :: "YamlObjectNode list \<Rightarrow> nat \<Rightarrow> YamlObjectNode" where
  "absorbed cs j =
     (if Suc j < length cs \<and> isArray (cs ! Suc j)
      then setChildren (cs ! j) (children (cs ! j) @ children (cs ! Suc j))
      else cs ! j)"

definition keptIndex :: "YamlObjectNode list \<Rightarrow> nat \<Rightarrow> bool" where
  "keptIndex cs j \<longleftrightarrow> \<not> (isArray (cs ! j) \<and> j \<noteq> 0)"

text \<open>All nodes strictly below a node, in document order.\<close>

fun descendants :: "YamlObjectNode \<Rightarrow> YamlObjectNode list" where
  "descendants (YamlObjectNode k v cs s e a) = concat (map (\<lambda>c. c # descendants c) cs)"


text \<open>No node below \<open>t\<close> is an array wrapper.\<close>

definition wrapperFree :: "YamlObjectNode \<Rightarrow> bool" where
  "wrapperFree t \<longleftrightarrow> (\<forall>n \<in> set (descendants t). \<not> isArray n)"

text \<open>The first of two or more children of \<open>n\<close> is an array wrapper.\<close>

definition leadingWrapper :: "YamlObjectNode \<Rightarrow> bool" where
  "leadingWrapper n \<longleftrightarrow> 2 \<le> length (children n) \<and> isArray (children n ! 0)"

text \<open>Nowhere in \<open>t\<close> is an array wrapper the first of two or more siblings.\<close>

definition noLeadingWrapper :: "YamlObjectNode \<Rightarrow> bool" where
  "noLeadingWrapper t \<longleftrightarrow> (\<forall>n \<in> set (t # descendants t). \<not> leadingWrapper n)"

text \<open>
  The declared type of \<^verbatim>\<open>ObjectASTNode.properties\<close> is \<^verbatim>\<open>PropertyASTNode[]\<close>:
  \<open>isProperty\<close> holds of what such an array may contain; \<open>hasKey name p\<close> is
  \<^verbatim>\<open>p.key.value === name\<close> on it.
\<close>

fun isProperty :: "ASTNode \<Rightarrow> bool" where
  "isProperty (PropertyASTNode s e k v) = True"
| "isProperty n = False"

fun hasKey :: "string \<Rightarrow> ASTNode \<Rightarrow> bool" where
  "hasKey name (PropertyASTNode s e k v) = (k = name)"
| "hasKey name n = False"

text \<open>
  Every array wrapper in \<open>t\<close> is the first of two or more siblings: the shape that the
  loop of the flatten pass leaves alone.
\<close>

definition onlyLeadingWrappers :: "YamlObjectNode \<Rightarrow> bool" where
  "onlyLeadingWrappers t \<longleftrightarrow>
     (\<forall>n \<in> set (t # descendants t). \<forall>j < length (children n).
        isArray (children n ! j) \<longrightarrow> j = 0 \<and> 2 \<le> length (children n))"

text \<open>An Array node with one of the locations \<^verbatim>\<open>stages\<close>, \<^verbatim>\<open>steps\<close>, \<^verbatim>\<open>jobs\<close>.\<close>

fun recognizedArray :: "ASTNode \<Rightarrow> bool" where
  "recognizedArray (ArrayASTNode s e loc items) = recognizedLocation loc"
| "recognizedArray n = False"

text \<open>
  In the tree \<open>m\<close>, no recognized array lies on the way down from \<open>m\<close> to the node at
  \<open>r\<close> (that node apart); and none lies strictly between the node at \<open>p\<close> and the node
  at \<open>r @ p\<close> below it.
\<close>

definition cleanPath :: "ASTNode \<Rightarrow> ptr \<Rightarrow> bool" where
  "cleanPath m r \<longleftrightarrow>
     (\<forall>r1 r2 n. r = r1 @ r2 \<and> r1 \<noteq> [] \<and> deref m r2 = Some n \<longrightarrow> \<not> recognizedArray n)"

definition cleanBetween :: "ASTNode \<Rightarrow> ptr \<Rightarrow> ptr \<Rightarrow> bool" where
  "cleanBetween m p r \<longleftrightarrow>
     (\<forall>ra rb n. r = ra @ rb \<and> ra \<noteq> [] \<and> rb \<noteq> [] \<and> deref m (rb @ p) = Some n
        \<longrightarrow> \<not> recognizedArray n)"

text \<open>
  The object that the visitor makes for a node: for a Property node with a recognized key,
  for an Array node with a recognized location, and for no other node.
\<close>

definition created :: "ASTNode \<Rightarrow> yamlNode \<Rightarrow> bool" where
  "created n y \<longleftrightarrow> n_children y = [] \<and>
     (case n of
        PropertyASTNode s e k v \<Rightarrow>
          recognizedKey k \<and> n_key y = k \<and> n_value y = getValue v \<and> \<not> n_isArray y
      | ArrayASTNode s e loc items \<Rightarrow>
          recognizedLocation loc \<and> n_key y = loc \<and> n_value y = JNull \<and> n_isArray y
      | _ \<Rightarrow> False)"

text \<open>
  The store during pass 1: the ids in use are those below \<open>currentId\<close>, and a child is
  younger than its parent. \<open>tagsBounded\<close>: every tag on the tree is an id in use (so it is
  for a tree that came without tags).
\<close>

definition wellFormed :: "build_state \<Rightarrow> bool" where
  "wellFormed st \<longleftrightarrow>
     (\<forall>i. (nodeMap st i \<noteq> None) = (i < currentId st))
   \<and> (\<forall>i c. nodeMap st i = Some c \<longrightarrow> (\<forall>j \<in> set (n_children c). i < j \<and> j < currentId st))
   \<and> (\<forall>j \<in> set (n_children (rootNode st)). j < currentId st)"

definition tagsBounded :: "build_state \<Rightarrow> bool" where
  "tagsBounded st \<longleftrightarrow> (\<forall>q i. tempId st q = Some i \<longrightarrow> i < currentId st)"

text \<open>Key, value and \<^verbatim>\<open>isArray\<close> of an object: what pass 1 never changes once set.\<close>

definition cellLabel :: "yamlNode \<Rightarrow> string \<times> jsvalue \<times> bool" where
  "cellLabel c = (n_key c, n_value c, n_isArray c)"

definition extends :: "build_state \<Rightarrow> build_state \<Rightarrow> bool" where
  "extends st st' \<longleftrightarrow>
     (\<forall>i c. nodeMap st i = Some c \<longrightarrow> (\<exists>c'. nodeMap st' i = Some c' \<and> cellLabel c' = cellLabel c))
   \<and> cellLabel (rootNode st') = cellLabel (rootNode st)"

text \<open>
  The nearest node with an entry, from \<open>po\<close> upwards, is a task: what line 61 tests.
\<close>

definition shadow :: "build_state \<Rightarrow> ptr option \<Rightarrow> bool" where
  "shadow st po \<longleftrightarrow> (\<exists>i c. nearestMapped st po = Some (i, c) \<and> n_key c = ''task'')"

text \<open>All objects strictly below an object, in document order.\<close>

fun objectsBelow :: "OutlineObject \<Rightarrow> OutlineObject list" where
  "objectsBelow (OutlineObject i k v cs s e a) = concat (map (\<lambda>c. c # objectsBelow c) cs)"

text \<open>Identity, key, value and \<^verbatim>\<open>isArray\<close> of an object: what the flatten pass never changes.\<close>

definition idLabel :: "OutlineObject \<Rightarrow> nat option \<times> string \<times> jsvalue \<times> bool" where
  "idLabel x = (objectId x, objectKey x, objectValue x, objectIsArray x)"

text \<open>
  Key, value and \<^verbatim>\<open>isArray\<close> that the visitor gives the object it makes for a node
  (lines 75 to 81 and 104 to 111); \<open>None\<close> for a node it never makes an object for.
\<close>

fun labelOf :: "ASTNode \<Rightarrow> (string \<times> jsvalue \<times> bool) option" where
  "labelOf (PropertyASTNode s e k v) = (if recognizedKey k then Some (k, getValue v, False) else None)"
| "labelOf (ArrayASTNode s e loc items) = (if recognizedLocation loc then Some (loc, JNull, True) else None)"
| "labelOf n = None"

text \<open>
  In the state \<open>st\<close> the object with the id \<open>i\<close> is the one made for the node at \<open>q\<close>
  of the tree \<open>rt\<close>: that node carries the id, and the entry has the key and the value
  read from that node.
\<close>

definition bornAt :: "ASTNode \<Rightarrow> build_state \<Rightarrow> ptr \<Rightarrow> nat \<Rightarrow> bool" where
  "bornAt rt st q i \<longleftrightarrow>
     tempId st q = Some i \<and>
     (\<exists>m c. deref rt q = Some m \<and> nodeMap st i = Some c \<and> labelOf m = Some (cellLabel c))"

text \<open>No two nodes of the syntax tree carry the same id.\<close>

definition tagsInjective :: "build_state \<Rightarrow> bool" where
  "tagsInjective st \<longleftrightarrow> (\<forall>q q' i. tempId st q = Some i \<and> tempId st q' = Some i \<longrightarrow> q = q')"

text \<open>
  \<open>x\<close> is the outline node of the node at \<open>q\<close> of the tree \<open>rt\<close>, which carries the
  tags \<open>tags\<close>: the node carries the id of \<open>x\<close> (so \<open>x\<close> is the object
  \<^verbatim>\<open>nodeMap[node.tempId]\<close> of the build), and \<open>x\<close> has the key, the value and the
  \<^verbatim>\<open>isArray\<close> that the visitor gives the object it makes for that node.
\<close>

definition outlineNodeOf :: "ASTNode \<Rightarrow> (ptr \<rightharpoonup> nat) \<Rightarrow> ptr \<Rightarrow> OutlineObject \<Rightarrow> bool" where
  "outlineNodeOf rt tags q x \<longleftrightarrow>
     objectId x \<noteq> None \<and> tags q = objectId x \<and>
     (case deref rt q of
        Some (PropertyASTNode s e k v) \<Rightarrow>
          recognizedKey k \<and> objectKey x = k \<and> objectValue x = getValue v \<and> \<not> objectIsArray x
      | Some (ArrayASTNode s e loc items) \<Rightarrow>
          recognizedLocation loc \<and> objectKey x = loc \<and> objectValue x = JNull \<and> objectIsArray x
      | _ \<Rightarrow> False)"

section \<open>Properties\<close>

subsection \<open>No top-level document\<close>

text \<open>
  Claim C1. With an empty list of top-level documents \<^verbatim>\<open>findNodes\<close> returns the empty
  sequence and \<^verbatim>\<open>getNodePropertyValues\<close> the absent map, but \<^verbatim>\<open>getObjectTree\<close> does
  not return a root without children: line 37 sets \<^verbatim>\<open>jsonDocument\<close> to \<^verbatim>\<open>null\<close> and
  line 43 reads \<^verbatim>\<open>jsonDocument.root\<close>, a \<^verbatim>\<open>TypeError\<close>, for every document and every
  tag state.
\<close>

theorem getObjectTree_no_documents_TypeError:
  "getObjectTree document \<lparr>documents = []\<rparr> tags = Some (Inl TypeError)
   \<and> findNodes document \<lparr>documents = []\<rparr> key' = Inr []
   \<and> getNodePropertyValues document \<lparr>documents = []\<rparr> position propertyName
       = Inr \<lparr>nodeValues = None\<rparr>"
  by (simp add: getObjectTree_def findNodes_def getNodePropertyValues_def split: option.splits)

subsection \<open>\<^verbatim>\<open>findNodes\<close> without a document\<close>

text \<open>
  Claim C6. With an absent document and the parsed tree of \<^verbatim>\<open>job: A\<close>,
  \<^verbatim>\<open>findNodes\<close> for the key \<^verbatim>\<open>job\<close> does not return the empty sequence: the guard of
  line 152 does not return, and line 166 calls \<^verbatim>\<open>document.positionAt\<close> on the absent
  document, a \<^verbatim>\<open>TypeError\<close>.
\<close>

theorem findNodes_absent_document_TypeError:
  "findNodes None \<lparr>documents = [\<lparr>root = jobTree\<rparr>]\<rparr> ''job'' = Inl TypeError"
  by (simp add: findNodes_def jobTree_def)

subsection \<open>The flatten pass on two wrappers in a row\<close>

text \<open>
  Claim C4. For the deployment job above, pass 1 puts three children under the
  \<^verbatim>\<open>jobs\<close> wrapper: the \<^verbatim>\<open>deployment\<close> node, the \<^verbatim>\<open>steps\<close> wrapper with script a,
  the \<^verbatim>\<open>steps\<close> wrapper with script b. The loop appends the children of the second
  wrapper onto \<^verbatim>\<open>node.children[i - 1]\<close>, which is the first wrapper, already dropped,
  and not onto the previous kept child: script b is in no place of the outline.
\<close>

theorem flatten_drops_children_of_second_wrapper:
  "outlineOf (Some lineDocument) \<lparr>documents = [\<lparr>root = deploymentTree\<rparr>]\<rparr> Map.empty =
     Some (Inr (YamlObjectNode ''root'' (JString ''root'')
       [YamlObjectNode ''deployment'' (JString ''D'')
          [YamlObjectNode ''script'' (JString ''a'') []
             \<lparr>line = 0, character = 61\<rparr> \<lparr>line = 0, character = 70\<rparr> False]
          \<lparr>line = 0, character = 8\<rparr> \<lparr>line = 0, character = 100\<rparr> False]
       \<lparr>line = 0, character = 0\<rparr> \<lparr>line = 0, character = 100\<rparr> False))"
  by (simp add: outlineOf_def getObjectTree_def pass1_def initialState_def deploymentTree_def
      scriptStep_def lineDocument_def recognizedKey_def recognizedLocation_def attach_def
      register_def pushChild_def provisionalTree_def newChildren_def flattenLoop.simps Let_def)

subsection \<open>The flatten pass\<close>

text \<open>The loop, slot by slot: what it returns when started at slot \<open>i\<close>.\<close>

lemma flattenLoop_invariant:
  assumes "length cs = length orig" "i \<le> length orig"
    and "\<forall>j < length orig. cs ! j = (if Suc j < i then absorbed orig j else orig ! j)"
  shows "flattenLoop i cs new =
           (map (absorbed orig) [0..<length orig], new @ filter (keptIndex orig) [i..<length orig])"
  using assms
proof (induction i cs new rule: flattenLoop.induct)
  case (1 i cs new)
  let ?n = "length orig"
  show ?case
  proof (cases "i < length cs")
    case False
    with 1 have i: "i = ?n" by simp
    have "cs = map (absorbed orig) [0..<?n]"
    proof (rule nth_equalityI)
      show "length cs = length (map (absorbed orig) [0..<?n])" using 1 by simp
    next
      fix j assume "j < length cs"
      then have j: "j < ?n" using 1 by simp
      show "cs ! j = map (absorbed orig) [0..<?n] ! j"
      proof (cases "Suc j < ?n")
        case True then show ?thesis using 1(5) j i by simp
      next
        case False
        then have "absorbed orig j = orig ! j" by (simp add: absorbed_def)
        then show ?thesis using 1(5) j i False by simp
      qed
    qed
    then show ?thesis using False i by (subst flattenLoop.simps) simp
  next
    case True
    then have iltn: "i < ?n" using 1 by simp
    have csi: "cs ! i = orig ! i" using 1(5) iltn by simp
    show ?thesis
    proof (cases "isArray (cs ! i) \<and> i \<noteq> 0")
      case drop: True
      let ?cs1 = "cs[i - 1 := setChildren (cs ! (i - 1)) (children (cs ! (i - 1)) @ children (cs ! i))]"
      have prev: "cs ! (i - 1) = orig ! (i - 1)" using 1(5) iltn drop by simp
      have inv: "\<forall>j < ?n. ?cs1 ! j = (if Suc j < Suc i then absorbed orig j else orig ! j)"
      proof (intro allI impI)
        fix j assume j: "j < ?n"
        show "?cs1 ! j = (if Suc j < Suc i then absorbed orig j else orig ! j)"
        proof (cases "j = i - 1")
          case True
          then have "Suc j = i" using drop by simp
          then show ?thesis using True j iltn drop prev csi 1(3)
            by (simp add: absorbed_def)
        next
          case False
          then show ?thesis using 1(5) j drop by (auto simp: nth_list_update)
        qed
      qed
      have "flattenLoop (Suc i) ?cs1 new =
          (map (absorbed orig) [0..<?n], new @ filter (keptIndex orig) [Suc i..<?n])"
        using 1(1)[OF True drop _ _ inv] 1(3) iltn by simp
      moreover have "filter (keptIndex orig) [i..<?n] = filter (keptIndex orig) [Suc i..<?n]"
        using drop csi iltn by (simp add: upt_conv_Cons keptIndex_def)
      ultimately show ?thesis using True drop by (subst flattenLoop.simps) auto
    next
      case keep: False
      have inv: "\<forall>j < ?n. cs ! j = (if Suc j < Suc i then absorbed orig j else orig ! j)"
      proof (intro allI impI)
        fix j assume j: "j < ?n"
        show "cs ! j = (if Suc j < Suc i then absorbed orig j else orig ! j)"
        proof (cases "Suc j = i")
          case True
          then have "absorbed orig j = orig ! j" using keep csi by (auto simp: absorbed_def)
          then show ?thesis using 1(5) j True by simp
        next
          case False
          then show ?thesis using 1(5) j by auto
        qed
      qed
      have "flattenLoop (Suc i) cs (new @ [i]) =
          (map (absorbed orig) [0..<?n], (new @ [i]) @ filter (keptIndex orig) [Suc i..<?n])"
        using 1(2)[OF True keep _ _ inv] 1(3) iltn by simp
      moreover have "filter (keptIndex orig) [i..<?n] = i # filter (keptIndex orig) [Suc i..<?n]"
        using keep csi iltn by (simp add: upt_conv_Cons keptIndex_def)
      ultimately show ?thesis using True keep by (subst flattenLoop.simps) auto
    qed
  qed
qed

lemma newChildren_loop:
  "\<not> (length cs = 1 \<and> isArray (cs ! 0)) \<Longrightarrow>
   newChildren cs = map (absorbed cs) (filter (keptIndex cs) [0..<length cs])"
proof -
  assume a: "\<not> (length cs = 1 \<and> isArray (cs ! 0))"
  have "flattenLoop 0 cs [] = (map (absorbed cs) [0..<length cs], [] @ filter (keptIndex cs) [0..<length cs])"
    by (rule flattenLoop_invariant) simp_all
  moreover have "map (\<lambda>j. map (absorbed cs) [0..<length cs] ! j) (filter (keptIndex cs) [0..<length cs])
      = map (absorbed cs) (filter (keptIndex cs) [0..<length cs])"
    by (rule map_cong) auto
  ultimately show ?thesis using a unfolding newChildren_def by (simp only: if_False append_Nil split: prod.splits) simp
qed

lemma descendants_children: "set (descendants t) = (\<Union>c \<in> set (children t). insert c (set (descendants c)))"
  by (cases t) auto

lemma wrapperFree_iff:
  "wrapperFree t \<longleftrightarrow> (\<forall>c \<in> set (children t). \<not> isArray c \<and> wrapperFree c)"
  unfolding wrapperFree_def by (auto simp: descendants_children[of t])

lemma noLeadingWrapper_iff:
  "noLeadingWrapper t \<longleftrightarrow> \<not> leadingWrapper t \<and> (\<forall>c \<in> set (children t). noLeadingWrapper c)"
  unfolding noLeadingWrapper_def by (auto simp: descendants_children[of t])

lemma flattenArrays_fields [simp]:
  "key (flattenArrays t) = key t" "nodeValue (flattenArrays t) = nodeValue t"
  "startPosition (flattenArrays t) = startPosition t" "endPosition (flattenArrays t) = endPosition t"
  "isArray (flattenArrays t) = isArray t"
  "children (flattenArrays t) = newChildren (map flattenArrays (children t))"
  by (cases t; simp)+

lemma setChildren_fields [simp]:
  "key (setChildren t cs) = key t" "nodeValue (setChildren t cs) = nodeValue t"
  "startPosition (setChildren t cs) = startPosition t" "endPosition (setChildren t cs) = endPosition t"
  "isArray (setChildren t cs) = isArray t" "children (setChildren t cs) = cs"
  by (cases t; simp)+

lemma onlyLeadingWrappers_iff:
  "onlyLeadingWrappers t \<longleftrightarrow>
     (\<forall>j < length (children t). isArray (children t ! j) \<longrightarrow> j = 0 \<and> 2 \<le> length (children t))
   \<and> (\<forall>c \<in> set (children t). onlyLeadingWrappers c)"
  unfolding onlyLeadingWrappers_def by (auto simp: descendants_children[of t])

lemma newChildren_only_leading:
  assumes "\<forall>j < length cs. isArray (cs ! j) \<longrightarrow> j = 0 \<and> 2 \<le> length cs"
  shows "newChildren cs = cs"
proof -
  have single: "\<not> (length cs = 1 \<and> isArray (cs ! 0))"
    using assms by auto
  have kept: "filter (keptIndex cs) [0..<length cs] = [0..<length cs]"
    using assms by (auto simp: keptIndex_def filter_id_conv)
  have "map (absorbed cs) [0..<length cs] = cs"
    using assms by (intro nth_equalityI) (auto simp: absorbed_def)
  then show ?thesis using newChildren_loop[OF single] kept by simp
qed

lemma flattenArrays_only_leading_id: "onlyLeadingWrappers t \<Longrightarrow> flattenArrays t = t"
proof (induction t)
  case (YamlObjectNode k v cs s e a)
  have here: "\<forall>j < length cs. isArray (cs ! j) \<longrightarrow> j = 0 \<and> 2 \<le> length cs"
    and below: "\<forall>c \<in> set cs. onlyLeadingWrappers c"
    using YamlObjectNode.prems onlyLeadingWrappers_iff[of "YamlObjectNode k v cs s e a"] by auto
  have "map flattenArrays cs = cs"
    using YamlObjectNode.IH below by (simp add: map_idI)
  moreover have "newChildren cs = cs" using here by (rule newChildren_only_leading)
  ultimately show ?case by simp
qed

lemma wrapperFree_only_leading: "wrapperFree t \<Longrightarrow> onlyLeadingWrappers t"
proof (induction t)
  case (YamlObjectNode k v cs s e a)
  have wf: "\<forall>c \<in> set cs. \<not> isArray c \<and> wrapperFree c"
    using YamlObjectNode.prems wrapperFree_iff[of "YamlObjectNode k v cs s e a"] by simp
  then show ?case
    using YamlObjectNode.IH onlyLeadingWrappers_iff[of "YamlObjectNode k v cs s e a"] by auto
qed

lemma newChildren_members:
  assumes "x \<in> set (newChildren cs)"
  shows "(length cs = 1 \<and> isArray (cs ! 0) \<and> x \<in> set (children (cs ! 0)))
       \<or> (\<not> (length cs = 1 \<and> isArray (cs ! 0)) \<and> (\<exists>j < length cs. keptIndex cs j \<and> x = absorbed cs j))"
proof (cases "length cs = 1 \<and> isArray (cs ! 0)")
  case True
  then show ?thesis using assms by (simp add: newChildren_def)
next
  case False
  then show ?thesis using assms newChildren_loop[OF False] by auto
qed

lemma flattenArrays_removes_wrappers: "noLeadingWrapper t \<Longrightarrow> wrapperFree (flattenArrays t)"
proof (induction t)
  case (YamlObjectNode k v cs s e a)
  let ?t = "YamlObjectNode k v cs s e a"
  let ?cs = "map flattenArrays cs"
  have nl: "\<not> leadingWrapper ?t" and nlc: "\<forall>c \<in> set cs. noLeadingWrapper c"
    using YamlObjectNode.prems noLeadingWrapper_iff[of ?t] by auto
  have free: "\<forall>c \<in> set ?cs. wrapperFree c"
    using YamlObjectNode.IH nlc by auto
  have "\<not> isArray x \<and> wrapperFree x" if x: "x \<in> set (newChildren ?cs)" for x
    using newChildren_members[OF x]
  proof (elim disjE conjE exE)
    assume "length ?cs = 1" "x \<in> set (children (?cs ! 0))"
    moreover from this have "wrapperFree (?cs ! 0)" using free by (metis nth_mem zero_less_one)
    ultimately show ?thesis using wrapperFree_iff[of "?cs ! 0"] by simp
  next
    fix j assume single: "\<not> (length ?cs = 1 \<and> isArray (?cs ! 0))"
      and j: "j < length ?cs" and kept: "keptIndex ?cs j" and xj: "x = absorbed ?cs j"
    have notarr: "\<not> isArray (?cs ! j)"
    proof (cases "j = 0")
      case True
      show ?thesis
      proof
        assume arr: "isArray (?cs ! j)"
        with single True have "2 \<le> length cs" using j by (cases cs) (auto simp: Suc_le_eq)
        then show False using nl arr True j by (simp add: leadingWrapper_def)
      qed
    next
      case False
      then show ?thesis using kept by (simp add: keptIndex_def)
    qed
    have fj: "wrapperFree (?cs ! j)" using free j by (metis nth_mem)
    show ?thesis
    proof (cases "Suc j < length ?cs \<and> isArray (?cs ! Suc j)")
      case True
      then have fn: "wrapperFree (?cs ! Suc j)" using free by (metis nth_mem)
      have "\<forall>c \<in> set (children (?cs ! j) @ children (?cs ! Suc j)). \<not> isArray c \<and> wrapperFree c"
        using fj fn wrapperFree_iff[of "?cs ! j"] wrapperFree_iff[of "?cs ! Suc j"] by auto
      then have "wrapperFree (absorbed ?cs j)"
        using True wrapperFree_iff[of "absorbed ?cs j"] by (simp add: absorbed_def)
      moreover have "\<not> isArray (absorbed ?cs j)" using notarr True by (simp add: absorbed_def)
      ultimately show ?thesis using xj by simp
    next
      case False
      then have "absorbed ?cs j = ?cs ! j" by (auto simp: absorbed_def)
      then show ?thesis using xj notarr fj by simp
    qed
  qed
  then show ?case using wrapperFree_iff[of "flattenArrays ?t"] by simp
qed











text \<open>
  Claim C2, as the code has it. The flatten pass changes nothing in a tree in which every
  array wrapper is the first of two or more siblings; so a second pass yields the same
  tree whenever the first pass has left such a tree. It has, with no array wrapper at all
  below the root, for every tree in which no array wrapper is the first of two or more
  siblings.
\<close>

theorem flatten_twice:
  "(onlyLeadingWrappers (flattenArrays t) \<longrightarrow> flattenArrays (flattenArrays t) = flattenArrays t)
   \<and> (noLeadingWrapper t \<longrightarrow>
        wrapperFree (flattenArrays t) \<and> flattenArrays (flattenArrays t) = flattenArrays t)"
  using flattenArrays_removes_wrappers flattenArrays_only_leading_id wrapperFree_only_leading
  by blast

theorem flatten_twice_witness:
  "onlyLeadingWrappers
     (flattenArrays (plainNode ''job'' [wrapperNode ''steps'' [leafNode ''script''], leafNode ''task'']))
   \<and> flattenArrays
       (flattenArrays (plainNode ''job'' [wrapperNode ''steps'' [leafNode ''script''], leafNode ''task'']))
     = plainNode ''job'' [wrapperNode ''steps'' [leafNode ''script''], leafNode ''task'']
   \<and> noLeadingWrapper (plainNode ''stage'' [wrapperNode ''steps'' [leafNode ''task'']])
   \<and> wrapperFree (flattenArrays (plainNode ''stage'' [wrapperNode ''steps'' [leafNode ''task'']]))
   \<and> flattenArrays (flattenArrays (plainNode ''stage'' [wrapperNode ''steps'' [leafNode ''task'']]))
     = plainNode ''stage'' [leafNode ''task'']"
proof -
  have f1: "flattenArrays (plainNode ''job'' [wrapperNode ''steps'' [leafNode ''script''], leafNode ''task''])
      = plainNode ''job'' [wrapperNode ''steps'' [leafNode ''script''], leafNode ''task'']"
    by (simp add: plainNode_def wrapperNode_def leafNode_def newChildren_def flattenLoop.simps)
  have h1: "onlyLeadingWrappers
     (flattenArrays (plainNode ''job'' [wrapperNode ''steps'' [leafNode ''script''], leafNode ''task'']))"
    unfolding f1
    by (simp add: onlyLeadingWrappers_def plainNode_def wrapperNode_def leafNode_def less_Suc_eq)
  have f2: "flattenArrays (plainNode ''stage'' [wrapperNode ''steps'' [leafNode ''task'']])
      = plainNode ''stage'' [leafNode ''task'']"
    by (simp add: plainNode_def wrapperNode_def leafNode_def newChildren_def flattenLoop.simps)
  have h2: "noLeadingWrapper (plainNode ''stage'' [wrapperNode ''steps'' [leafNode ''task'']])"
    by (simp add: noLeadingWrapper_def leadingWrapper_def plainNode_def wrapperNode_def leafNode_def)
  show ?thesis
    using flatten_twice [of "plainNode ''job'' [wrapperNode ''steps'' [leafNode ''script''], leafNode ''task'']"]
      flatten_twice [of "plainNode ''stage'' [wrapperNode ''steps'' [leafNode ''task'']]"]
      h1 h2 f1 f2
    by simp
qed

text \<open>
  Claim C2, as stated, fails on a tree of pass 1: for the two phases above the root gets
  two \<^verbatim>\<open>steps\<close> wrappers. The first pass keeps the first wrapper, now the only child
  of the root; the second pass elides it.
\<close>

theorem flatten_twice_differs:
  "\<exists>t. provisionalTree (pass1 lineDocument \<lparr>root = phasesTree\<rparr> Map.empty) = Some t
     \<and> flattenArrays (flattenArrays t) \<noteq> flattenArrays t
     \<and> (\<exists>w. children (flattenArrays t) = [w] \<and> isArray w)"
  by (simp add: pass1_def initialState_def phasesTree_def
      scriptStep_def lineDocument_def recognizedKey_def recognizedLocation_def attach_def
      register_def pushChild_def provisionalTree_def newChildren_def flattenLoop.simps Let_def)

subsection \<open>\<^verbatim>\<open>getNodePropertyValues\<close>\<close>

lemma filterByKey_properties:
  "\<forall>p \<in> set props. isProperty p \<Longrightarrow> filterByKey name props = Inr (filter (hasKey name) props)"
proof (induction props)
  case Nil
  then show ?case by simp
next
  case (Cons p ps)
  then obtain s e k v where "p = PropertyASTNode s e k v" by (cases p) auto
  then show ?case using Cons by simp
qed

lemma collectValues_properties:
  "\<forall>p \<in> set ps. isProperty p \<Longrightarrow>
   \<exists>m'. collectValues ps m b = Inr m' \<and>
     (\<forall>name. name \<noteq> ''__proto__'' \<longrightarrow>
       (case filter (hasKey name) ps of
         [] \<Rightarrow> m' name = m name
       | q # qs \<Rightarrow> \<exists>s e v. last (q # qs) = PropertyASTNode s e name v \<and> m' name = Some (getValue v))) \<and>
     (b \<and> (\<forall>s e v. PropertyASTNode s e ''__proto__'' v \<in> set ps \<longrightarrow> keepsSetter (getValue v))
        \<longrightarrow> m' ''__proto__'' = m ''__proto__'')"
proof (induction ps arbitrary: m b)
  case Nil
  then show ?case by simp
next
  case (Cons p ps)
  then obtain s e k v where p: "p = PropertyASTNode s e k v" by (cases p) auto
  let ?m = "if k = ''__proto__'' \<and> b then m else m(k \<mapsto> getValue v)"
  let ?b = "if k = ''__proto__'' \<and> b then keepsSetter (getValue v) else b"
  from Cons.prems have "\<forall>p \<in> set ps. isProperty p" by simp
  from Cons.IH[OF this, of ?m ?b] obtain m' where
    run: "collectValues ps ?m ?b = Inr m'" and
    tab: "\<And>name. name \<noteq> ''__proto__'' \<Longrightarrow>
       (case filter (hasKey name) ps of
         [] \<Rightarrow> m' name = ?m name
       | q # qs \<Rightarrow> \<exists>s e v. last (q # qs) = PropertyASTNode s e name v \<and> m' name = Some (getValue v))" and
    proto: "?b \<and> (\<forall>s e v. PropertyASTNode s e ''__proto__'' v \<in> set ps \<longrightarrow> keepsSetter (getValue v))
        \<longrightarrow> m' ''__proto__'' = ?m ''__proto__''"
    by blast
  have run': "collectValues (p # ps) m b = Inr m'" using run p by auto
  have "case filter (hasKey name) (p # ps) of
         [] \<Rightarrow> m' name = m name
       | q # qs \<Rightarrow> \<exists>s e v. last (q # qs) = PropertyASTNode s e name v \<and> m' name = Some (getValue v)"
    if "name \<noteq> ''__proto__''" for name
    using tab[OF that] p that by (cases "filter (hasKey name) ps") auto
  moreover have "m' ''__proto__'' = m ''__proto__''"
    if "b" "\<forall>s e v. PropertyASTNode s e ''__proto__'' v \<in> set (p # ps) \<longrightarrow> keepsSetter (getValue v)"
    using proto that p by (auto split: if_splits)
  ultimately show ?case using run' by blast
qed

text \<open>
  Claim C7. The cursor has a nearest enclosing Object node, with the properties \<open>props\<close>.
  If the number of properties with the key \<open>propertyName\<close> is not one, the result is the
  absent map; if the single match has a value that is not an Object node, or an Object
  node without properties, the result is the empty map, which is not the absent map.
\<close>

theorem getNodePropertyValues_match_count:
  assumes "firstDocument yamlDocument = Some jsonDocument"
    and "nearestObject (root jsonDocument)
           (getNodeFromOffset (root jsonDocument) (offsetAt doc position)) = Some (ObjectASTNode s e props)"
    and "\<forall>p \<in> set props. isProperty p"
  shows "(length (filter (hasKey propertyName) props) \<noteq> 1 \<longrightarrow>
            getNodePropertyValues (Some doc) yamlDocument position propertyName = Inr \<lparr>nodeValues = None\<rparr>)
       \<and> (\<forall>s' e' v. filter (hasKey propertyName) props = [PropertyASTNode s' e' propertyName v]
              \<and> (properties v = None \<or> properties v = Some []) \<longrightarrow>
            getNodePropertyValues (Some doc) yamlDocument position propertyName
              = Inr \<lparr>nodeValues = Some Map.empty\<rparr>)"
  using assms filterByKey_properties[OF assms(3), of propertyName]
  by (auto simp: getNodePropertyValues_def Let_def simp del: firstDocument.simps)

theorem getNodePropertyValues_match_count_witness:
  "getNodePropertyValues (Some lineDocument) \<lparr>documents = [\<lparr>root = twoInputsTree\<rparr>]\<rparr>
       \<lparr>line = 0, character = 3\<rparr> ''inputs'' = Inr \<lparr>nodeValues = None\<rparr>
   \<and> getNodePropertyValues (Some lineDocument) \<lparr>documents = [\<lparr>root = scalarInputsTree\<rparr>]\<rparr>
       \<lparr>line = 0, character = 3\<rparr> ''inputs'' = Inr \<lparr>nodeValues = Some Map.empty\<rparr>"
proof -
  have d2: "firstDocument \<lparr>documents = [\<lparr>root = twoInputsTree\<rparr>]\<rparr> = Some \<lparr>root = twoInputsTree\<rparr>"
    by simp
  have o2: "nearestObject (root \<lparr>root = twoInputsTree\<rparr>)
       (getNodeFromOffset (root \<lparr>root = twoInputsTree\<rparr>)
          (offsetAt lineDocument \<lparr>line = 0, character = 3\<rparr>))
     = Some (ObjectASTNode 0 50
       [PropertyASTNode 0 9 ''task'' (ValueASTNode 6 9 (JString ''Foo'')),
        PropertyASTNode 10 19 ''inputs'' (ValueASTNode 18 19 (JString ''x'')),
        PropertyASTNode 20 29 ''inputs'' (ValueASTNode 28 29 (JString ''y''))])"
    by (simp add: twoInputsTree_def getNodeFromOffset_def lineDocument_def)
  have d1: "firstDocument \<lparr>documents = [\<lparr>root = scalarInputsTree\<rparr>]\<rparr> = Some \<lparr>root = scalarInputsTree\<rparr>"
    by simp
  have o1: "nearestObject (root \<lparr>root = scalarInputsTree\<rparr>)
       (getNodeFromOffset (root \<lparr>root = scalarInputsTree\<rparr>)
          (offsetAt lineDocument \<lparr>line = 0, character = 3\<rparr>))
     = Some (ObjectASTNode 0 50
       [PropertyASTNode 0 9 ''task'' (ValueASTNode 6 9 (JString ''Foo'')),
        PropertyASTNode 10 19 ''inputs'' (ValueASTNode 18 19 (JString ''x''))])"
    by (simp add: scalarInputsTree_def getNodeFromOffset_def lineDocument_def)
  show ?thesis
    using getNodePropertyValues_match_count [OF d2 o2, of "''inputs''"]
      getNodePropertyValues_match_count [OF d1 o1, of "''inputs''"]
    by simp
qed

text \<open>
  Claim C10. The single match has an Object node as its value, with the properties \<open>ps\<close>.
  The result is a map that binds every name other than \<^verbatim>\<open>__proto__\<close> to the read-out
  (\<^verbatim>\<open>getValue()\<close>, not converted to a string) of the value of the last property of
  \<open>ps\<close> with that key, and binds no other such name. It has no entry for \<^verbatim>\<open>__proto__\<close>
  when every property of \<open>ps\<close> with that key has a string, a number, a boolean or an array
  for its value.
\<close>

theorem getNodePropertyValues_last_wins:
  assumes "firstDocument yamlDocument = Some jsonDocument"
    and "nearestObject (root jsonDocument)
           (getNodeFromOffset (root jsonDocument) (offsetAt doc position)) = Some (ObjectASTNode s e props)"
    and "\<forall>p \<in> set props. isProperty p"
    and "filter (hasKey propertyName) props = [PropertyASTNode s' e' propertyName (ObjectASTNode s'' e'' ps)]"
    and "\<forall>p \<in> set ps. isProperty p"
  shows "\<exists>valueMap.
           getNodePropertyValues (Some doc) yamlDocument position propertyName
             = Inr \<lparr>nodeValues = Some valueMap\<rparr>
         \<and> (\<forall>name. name \<noteq> ''__proto__'' \<longrightarrow>
               (case filter (hasKey name) ps of
                  [] \<Rightarrow> valueMap name = None
                | q # qs \<Rightarrow> \<exists>s e v. last (q # qs) = PropertyASTNode s e name v
                                    \<and> valueMap name = Some (getValue v)))
         \<and> ((\<forall>s e v. PropertyASTNode s e ''__proto__'' v \<in> set ps \<longrightarrow> keepsSetter (getValue v))
               \<longrightarrow> valueMap ''__proto__'' = None)"
proof -
  from collectValues_properties[OF assms(5), of Map.empty True] obtain m' where
    run: "collectValues ps Map.empty True = Inr m'" and
    tab: "\<forall>name. name \<noteq> ''__proto__'' \<longrightarrow>
       (case filter (hasKey name) ps of
         [] \<Rightarrow> m' name = Map.empty name
       | q # qs \<Rightarrow> \<exists>s e v. last (q # qs) = PropertyASTNode s e name v \<and> m' name = Some (getValue v))" and
    proto: "True \<and> (\<forall>s e v. PropertyASTNode s e ''__proto__'' v \<in> set ps \<longrightarrow> keepsSetter (getValue v))
        \<longrightarrow> m' ''__proto__'' = Map.empty ''__proto__''"
    by blast
  have "getNodePropertyValues (Some doc) yamlDocument position propertyName
             = Inr \<lparr>nodeValues = Some m'\<rparr>"
    using assms(1,2,4) filterByKey_properties[OF assms(3), of propertyName] run
    by (simp add: getNodePropertyValues_def Let_def del: firstDocument.simps)
  moreover have "\<forall>name. name \<noteq> ''__proto__'' \<longrightarrow>
       (case filter (hasKey name) ps of
         [] \<Rightarrow> m' name = None
       | q # qs \<Rightarrow> \<exists>s e v. last (q # qs) = PropertyASTNode s e name v \<and> m' name = Some (getValue v))"
    using tab by simp
  moreover have "(\<forall>s e v. PropertyASTNode s e ''__proto__'' v \<in> set ps \<longrightarrow> keepsSetter (getValue v))
               \<longrightarrow> m' ''__proto__'' = None"
    using proto by simp
  ultimately show ?thesis by blast
qed

theorem getNodePropertyValues_last_wins_witness:
  "\<exists>valueMap.
     getNodePropertyValues (Some lineDocument) \<lparr>documents = [\<lparr>root = taskInputsTree\<rparr>]\<rparr>
         \<lparr>line = 0, character = 3\<rparr> ''inputs'' = Inr \<lparr>nodeValues = Some valueMap\<rparr>
     \<and> valueMap ''a'' = Some (JString ''3'') \<and> valueMap ''b'' = Some (JString ''2'')
     \<and> valueMap ''c'' = None \<and> valueMap ''__proto__'' = None"
proof -
  let ?ps = "[PropertyASTNode 18 22 ''a'' (ValueASTNode 21 22 (JString ''1'')),
           PropertyASTNode 23 35 ''__proto__'' (ValueASTNode 34 35 (JString ''p'')),
           PropertyASTNode 36 40 ''b'' (ValueASTNode 39 40 (JString ''2'')),
           PropertyASTNode 41 45 ''a'' (ValueASTNode 44 45 (JString ''3''))]"
  have d: "firstDocument \<lparr>documents = [\<lparr>root = taskInputsTree\<rparr>]\<rparr> = Some \<lparr>root = taskInputsTree\<rparr>"
    by simp
  have o: "nearestObject (root \<lparr>root = taskInputsTree\<rparr>)
       (getNodeFromOffset (root \<lparr>root = taskInputsTree\<rparr>)
          (offsetAt lineDocument \<lparr>line = 0, character = 3\<rparr>))
     = Some (ObjectASTNode 0 60
       [PropertyASTNode 0 9 ''task'' (ValueASTNode 6 9 (JString ''Foo'')),
        PropertyASTNode 10 60 ''inputs'' (ObjectASTNode 18 60 ?ps)])"
    by (simp add: taskInputsTree_def getNodeFromOffset_def lineDocument_def)
  have k: "\<forall>s e v. PropertyASTNode s e ''__proto__'' v \<in> set ?ps \<longrightarrow> keepsSetter (getValue v)"
    by auto
  obtain valueMap where
    r: "getNodePropertyValues (Some lineDocument) \<lparr>documents = [\<lparr>root = taskInputsTree\<rparr>]\<rparr>
         \<lparr>line = 0, character = 3\<rparr> ''inputs'' = Inr \<lparr>nodeValues = Some valueMap\<rparr>"
    and pr: "(\<forall>s e v. PropertyASTNode s e ''__proto__'' v \<in> set ?ps \<longrightarrow> keepsSetter (getValue v))
               \<longrightarrow> valueMap ''__proto__'' = None"
    and t: "\<And>name. name \<noteq> ''__proto__'' \<Longrightarrow>
          (case filter (hasKey name) ?ps of
               [] \<Rightarrow> valueMap name = None
             | q # qs \<Rightarrow> \<exists>s e v. last (q # qs) = PropertyASTNode s e name v
                                 \<and> valueMap name = Some (getValue v))"
    using getNodePropertyValues_last_wins [OF d o, of "''inputs''" 10 60 18 60]
    by auto
  show ?thesis using r pr k t[of "''a''"] t[of "''b''"] t[of "''c''"] by auto
qed

text \<open>
  Claim C10, as stated, fails on the inputs \<^verbatim>\<open>{__proto__: x, retries: 1, retries: 3}\<close>:
  the map has no entry for the key \<^verbatim>\<open>__proto__\<close>, which the value object has, and it
  binds \<^verbatim>\<open>retries\<close> to the number 3, not to the string \<^verbatim>\<open>"3"\<close>.
\<close>

theorem getNodePropertyValues_proto_and_number:
  "\<exists>valueMap.
     getNodePropertyValues (Some lineDocument) \<lparr>documents = [\<lparr>root = protoInputsTree\<rparr>]\<rparr>
         \<lparr>line = 0, character = 3\<rparr> ''inputs'' = Inr \<lparr>nodeValues = Some valueMap\<rparr>
     \<and> valueMap ''__proto__'' = None
     \<and> valueMap ''retries'' = Some (JNumber 3)
     \<and> valueMap ''retries'' \<noteq> Some (JString ''3'')"
  by (simp add: getNodePropertyValues_def protoInputsTree_def getNodeFromOffset_def
      lineDocument_def Let_def)

subsection \<open>The traversal of pass 1\<close>

lemma deref_snoc:
  "deref n (r @ [j]) = (if j < length (childNodes n) then deref (childNodes n ! j) r else None)"
  by (induction r) (auto split: option.splits)

text \<open>An invariant of the visitor is an invariant of the traversal.\<close>

lemma visit_invariant:
  assumes step: "\<And>p n s. I s \<Longrightarrow> I (f p n s)"
  shows "I st \<Longrightarrow> I (visit f p n st)"
    and "I st \<Longrightarrow> I (visitChildren f p i cs st)"
  using step
  by (induction f p n st and f p i cs st rule: visit_visitChildren.induct) simp_all

text \<open>The same, for a visitor that is told where in the tree \<open>rt\<close> it stands.\<close>

lemma visit_invariant_at:
  assumes step: "\<And>p m s. deref rt p = Some m \<Longrightarrow> I s \<Longrightarrow> I (f p m s)"
  shows "deref rt p = Some n \<Longrightarrow> I st \<Longrightarrow> I (visit f p n st)"
    and "(\<And>j. j < length cs \<Longrightarrow> deref rt ((i + j) # p) = Some (cs ! j)) \<Longrightarrow> I st \<Longrightarrow>
           I (visitChildren f p i cs st)"
  using step
proof (induction f p n st and f p i cs st rule: visit_visitChildren.induct)
  case (1 f p s e props st)
  have "I (f p (ObjectASTNode s e props) st)" using 1 by blast
  moreover have "\<And>j. j < length props \<Longrightarrow> deref rt ((0 + j) # p) = Some (props ! j)"
    using "1.prems"(1) by simp
  ultimately show ?case using "1.IH" "1.prems"(3) by simp
next
  case (2 f p s e loc items st)
  have "I (f p (ArrayASTNode s e loc items) st)" using 2 by blast
  moreover have "\<And>j. j < length items \<Longrightarrow> deref rt ((0 + j) # p) = Some (items ! j)"
    using "2.prems"(1) by simp
  ultimately show ?case using "2.IH" "2.prems"(3) by simp
next
  case (3 f p s e k v st)
  have "I (f p (PropertyASTNode s e k v) st)" using 3 by blast
  moreover have "deref rt (0 # p) = Some v" using "3.prems"(1) by simp
  ultimately show ?case using "3.IH" "3.prems"(3) by simp
next
  case (4 f p s e x st)
  then show ?case by simp
next
  case (5 f p i st)
  then show ?case by simp
next
  case (6 f p i c cs st)
  have "deref rt (i # p) = Some c" using "6.prems"(1)[of 0] by simp
  then have "I (visit f (i # p) c st)" using "6.IH"(1) "6.prems"(2,3) by blast
  moreover have "\<And>j. j < length cs \<Longrightarrow> deref rt ((Suc i + j) # p) = Some (cs ! j)"
    using "6.prems"(1)[of "Suc _"] by simp
  ultimately show ?case using "6.IH"(2) "6.prems"(3) by simp
qed

text \<open>What the visitor does: nothing, or register and attach one new object.\<close>

lemma visitor_cases:
  "visitor document rt p n st = st
   \<or> (\<exists>y. created n y \<and>
         visitor document rt p n st
           = attach (register st p y) (nearestMapped st (parent p)) (currentId st))"
proof (cases n)
  case (PropertyASTNode s e k v)
  let ?n = "case nearestObject rt (parent p) of None \<Rightarrow> PropertyASTNode s e k v | Some m \<Rightarrow> m"
  let ?y = "\<lparr>n_key = k, n_value = getValue v, n_children = [],
             n_startPosition = positionAt document (nstart ?n),
             n_endPosition = positionAt document (nend ?n), n_isArray = False\<rparr>"
  have "visitor document rt p n st = st
      \<or> (created n ?y \<and> visitor document rt p n st
            = attach (register st p ?y) (nearestMapped st (parent p)) (currentId st))"
    using PropertyASTNode by (simp add: created_def Let_def)
  then show ?thesis by blast
next
  case (ArrayASTNode s e loc items)
  let ?y = "\<lparr>n_key = loc, n_value = JNull, n_children = [],
             n_startPosition = positionAt document s,
             n_endPosition = positionAt document e, n_isArray = True\<rparr>"
  have "visitor document rt p n st = st
      \<or> (created n ?y \<and> visitor document rt p n st
            = attach (register st p ?y) (nearestMapped st (parent p)) (currentId st))"
    using ArrayASTNode by (simp add: created_def Let_def)
  then show ?thesis by blast
qed simp_all

lemma tempId_attach [simp]: "tempId (attach st po i) = tempId st"
  by (auto simp: attach_def split: option.splits)

lemma currentId_attach [simp]: "currentId (attach st po i) = currentId st"
  by (auto simp: attach_def split: option.splits)

lemma tempId_register [simp]: "tempId (register st p y) = (tempId st)(p \<mapsto> currentId st)"
  by (simp add: register_def)

lemma currentId_register [simp]: "currentId (register st p y) = Suc (currentId st)"
  by (simp add: register_def)

lemma visitor_tempId_other: "q \<noteq> p \<Longrightarrow> tempId (visitor document rt p n st) q = tempId st q"
  using visitor_cases[of document rt p n st] by auto

lemma visitor_tempId_kept:
  "tempId st q \<noteq> None \<Longrightarrow> tempId (visitor document rt p n st) q \<noteq> None"
  using visitor_cases[of document rt p n st] by auto

lemma visitor_tags_array:
  "recognizedLocation loc \<Longrightarrow>
   tempId (visitor document rt p (ArrayASTNode s e loc items) st) p \<noteq> None"
  by (simp add: Let_def)

lemma visit_tempId_kept:
  "tempId st q \<noteq> None \<Longrightarrow> tempId (visit (visitor document rt) p n st) q \<noteq> None"
  "tempId st q \<noteq> None \<Longrightarrow> tempId (visitChildren (visitor document rt) p i cs st) q \<noteq> None"
  by (rule visit_invariant[where I = "\<lambda>s. tempId s q \<noteq> None"]; simp add: visitor_tempId_kept)+

text \<open>The traversal of the subtree at \<open>p\<close> writes tags in that subtree only.\<close>

lemma visit_frame:
  "\<not> suffix p q \<Longrightarrow> tempId (visit (visitor document rt) p n st) q = tempId st q"
  "(\<And>j. i \<le> j \<Longrightarrow> \<not> suffix (j # p) q) \<Longrightarrow>
     tempId (visitChildren (visitor document rt) p i cs st) q = tempId st q"
proof (induction "visitor document rt" p n st and "visitor document rt" p i cs st
       rule: visit_visitChildren.induct)
  case (1 p s e props st)
  have "q \<noteq> p" using 1(2) by auto
  moreover have "\<not> suffix (j # p) q" for j using 1(2) by (meson suffix_ConsD)
  ultimately show ?case using 1(1) by (simp add: visitor_tempId_other del: visitor.simps)
next
  case (2 p s e loc items st)
  have "q \<noteq> p" using 2(2) by auto
  moreover have "\<not> suffix (j # p) q" for j using 2(2) by (meson suffix_ConsD)
  ultimately show ?case using 2(1) by (simp add: visitor_tempId_other del: visitor.simps)
next
  case (3 p s e k v st)
  have "q \<noteq> p" using 3(2) by auto
  moreover have "\<not> suffix (0 # p) q" using 3(2) by (meson suffix_ConsD)
  ultimately show ?case using 3(1) by (simp add: visitor_tempId_other del: visitor.simps)
next
  case (4 p s e x st)
  then show ?case by auto
next
  case (5 p i st)
  then show ?case by simp
next
  case (6 p i c cs st)
  have "\<not> suffix (i # p) q" using 6(3) by simp
  moreover have "\<And>j. Suc i \<le> j \<Longrightarrow> \<not> suffix (j # p) q" using 6(3) by simp
  ultimately show ?case using 6(1,2) by simp
qed

text \<open>Every Array node with a recognized location carries a tag after the traversal.\<close>

lemma visit_tags_arrays:
  "deref n r = Some (ArrayASTNode s e loc items) \<Longrightarrow> recognizedLocation loc \<Longrightarrow>
     tempId (visit (visitor document rt) p n st) (r @ p) \<noteq> None"
  "j < length cs \<Longrightarrow> deref (cs ! j) r = Some (ArrayASTNode s e loc items) \<Longrightarrow>
     recognizedLocation loc \<Longrightarrow>
     tempId (visitChildren (visitor document rt) p i cs st) (r @ (i + j) # p) \<noteq> None"
proof (induction "visitor document rt" p n st and "visitor document rt" p i cs st
       arbitrary: r and r j rule: visit_visitChildren.induct)
  case (1 p s' e' props st)
  show ?case
  proof (cases r rule: rev_cases)
    case Nil
    then show ?thesis using 1(2) by simp
  next
    case (snoc r' j)
    then have "j < length props" "deref (props ! j) r' = Some (ArrayASTNode s e loc items)"
      using 1(2) by (auto simp: deref_snoc split: if_splits)
    from 1(1)[OF this 1(3)] show ?thesis using snoc by simp
  qed
next
  case (2 p s' e' loc' items' st)
  show ?case
  proof (cases r rule: rev_cases)
    case Nil
    then have "tempId (visitor document rt p (ArrayASTNode s' e' loc' items') st) p \<noteq> None"
      using 2(2,3) visitor_tags_array by simp
    then show ?thesis using Nil visit_tempId_kept(2) by simp
  next
    case (snoc r' j)
    then have "j < length items'" "deref (items' ! j) r' = Some (ArrayASTNode s e loc items)"
      using 2(2) by (auto simp: deref_snoc split: if_splits)
    from 2(1)[OF this 2(3)] show ?thesis using snoc by simp
  qed
next
  case (3 p s' e' k v st)
  show ?case
  proof (cases r rule: rev_cases)
    case Nil
    then show ?thesis using 3(2) by simp
  next
    case (snoc r' j)
    then have "j = 0" "deref v r' = Some (ArrayASTNode s e loc items)"
      using 3(2) by (auto simp: deref_snoc split: if_splits)
    from 3(1)[OF this(2) 3(3)] show ?thesis using snoc \<open>j = 0\<close> by simp
  qed
next
  case (4 p s' e' x st)
  then show ?case by (cases r rule: rev_cases) (auto simp: deref_snoc)
next
  case (5 p i st)
  then show ?case by simp
next
  case (6 p i c cs st)
  show ?case
  proof (cases j)
    case 0
    then have "tempId (visit (visitor document rt) (i # p) c st) (r @ i # p) \<noteq> None"
      using 6(1)[of r] 6(4,5) by simp
    then show ?thesis using 0 visit_tempId_kept(2) by simp
  next
    case (Suc j')
    then show ?thesis using 6(2)[of j' r] 6(3,4,5) by simp
  qed
qed

text \<open>The store stays well-formed, and an object keeps its key, value and \<^verbatim>\<open>isArray\<close>.\<close>

lemma extends_refl [simp]: "extends st st"
  by (simp add: extends_def)

lemma extends_trans: "extends a b \<Longrightarrow> extends b c \<Longrightarrow> extends a c"
  unfolding extends_def by (metis (no_types, lifting))

lemma mapped_Some: "mapped st q = Some (i, c) \<Longrightarrow> tempId st q = Some i \<and> nodeMap st i = Some c"
  by (auto split: option.splits)

lemma nearestMapped_Some:
  "nearestMapped st po = Some (i, c) \<Longrightarrow> nodeMap st i = Some c"
proof (induction st po rule: nearestMapped.induct)
  case (3 st j p)
  then show ?case by (cases "mapped st (j # p)") (auto split: option.splits simp del: mapped.simps dest: mapped_Some)
qed (auto split: option.splits)

lemma wellFormed_register_attach:
  assumes wf: "wellFormed st" and y: "n_children y = []"
  shows "wellFormed (attach (register st p y) (nearestMapped st po) (currentId st))"
proof (cases "nearestMapped st po")
  case None
  then show ?thesis using wf y
    by (auto simp: wellFormed_def attach_def register_def less_Suc_eq)
next
  case (Some a)
  then obtain pid c where a: "a = (pid, c)" by (cases a)
  then have c: "nodeMap st pid = Some c" using Some nearestMapped_Some by blast
  then have lt: "pid < currentId st" using wf by (auto simp: wellFormed_def)
  show ?thesis using wf y c lt Some a
    unfolding wellFormed_def attach_def register_def pushChild_def
    by (auto simp: less_Suc_eq split: if_splits)
qed

lemma extends_register_attach:
  assumes wf: "wellFormed st"
  shows "extends st (attach (register st p y) (nearestMapped st po) (currentId st))"
proof (cases "nearestMapped st po")
  case None
  then show ?thesis using wf
    by (auto simp: wellFormed_def extends_def attach_def register_def cellLabel_def)
next
  case (Some a)
  then obtain pid c where a: "a = (pid, c)" by (cases a)
  then have c: "nodeMap st pid = Some c" using Some nearestMapped_Some by blast
  then have lt: "pid < currentId st" using wf by (auto simp: wellFormed_def)
  have fresh: "nodeMap st (currentId st) = None" using wf by (auto simp: wellFormed_def)
  show ?thesis using c lt Some a fresh
    unfolding extends_def attach_def register_def pushChild_def
    by (auto simp: cellLabel_def)
qed

lemma visitor_wellFormed: "wellFormed st \<Longrightarrow> wellFormed (visitor document rt p n st)"
  using visitor_cases[of document rt p n st] wellFormed_register_attach
  by (auto simp: created_def)

lemma visitor_extends: "wellFormed st \<Longrightarrow> extends st (visitor document rt p n st)"
  using visitor_cases[of document rt p n st] extends_register_attach by auto

lemma visit_wellFormed:
  "wellFormed st \<Longrightarrow> wellFormed (visit (visitor document rt) p n st)"
  "wellFormed st \<Longrightarrow> wellFormed (visitChildren (visitor document rt) p i cs st)"
  by (rule visit_invariant[where I = wellFormed]; simp add: visitor_wellFormed)+

lemma visit_extends:
  assumes "wellFormed st"
  shows "extends st (visit (visitor document rt) p n st)"
    and "extends st (visitChildren (visitor document rt) p i cs st)"
proof -
  let ?I = "\<lambda>s. wellFormed s \<and> extends st s"
  have step: "\<And>p n s. ?I s \<Longrightarrow> ?I (visitor document rt p n s)"
    using visitor_wellFormed visitor_extends extends_trans by blast
  have "?I (visit (visitor document rt) p n st)"
    by (rule visit_invariant(1)[where I = ?I]) (use step assms in auto)
  then show "extends st (visit (visitor document rt) p n st)" by simp
  have "?I (visitChildren (visitor document rt) p i cs st)"
    by (rule visit_invariant(2)[where I = ?I]) (use step assms in auto)
  then show "extends st (visitChildren (visitor document rt) p i cs st)" by simp
qed

lemma tagsBounded_visitor: "tagsBounded st \<Longrightarrow> tagsBounded (visitor document rt p n st)"
  using visitor_cases[of document rt p n st]
  by (auto simp: tagsBounded_def less_Suc_eq split: if_splits)

lemma visit_tagsBounded:
  "tagsBounded st \<Longrightarrow> tagsBounded (visit (visitor document rt) p n st)"
  "tagsBounded st \<Longrightarrow> tagsBounded (visitChildren (visitor document rt) p i cs st)"
  by (rule visit_invariant[where I = tagsBounded]; simp add: tagsBounded_visitor)+

lemma wellFormed_pass1: "wellFormed (pass1 document jsonDocument tags)"
  unfolding pass1_def by (rule visit_wellFormed) (simp add: wellFormed_def initialState_def)

text \<open>Every reference of a well-formed store resolves within the depth taken.\<close>

lemma treeOf_total:
  "wellFormed st \<Longrightarrow> m = nodeMap st \<Longrightarrow>
     \<forall>j \<in> set (n_children c). lo \<le> j \<and> j < currentId st \<Longrightarrow>
     currentId st - lo < d \<Longrightarrow> treeOf d m c \<noteq> None"
  "wellFormed st \<Longrightarrow> m = nodeMap st \<Longrightarrow>
     \<forall>j \<in> set js. lo \<le> j \<and> j < currentId st \<Longrightarrow>
     currentId st - lo \<le> d \<Longrightarrow> treesOf d m js \<noteq> None"
proof (induction d m c and d m js arbitrary: lo and lo rule: treeOf_treesOf.induct)
  case (1 m c)
  then show ?case by simp
next
  case (2 d m c)
  have "treesOf d m (n_children c) \<noteq> None"
    using "2.IH"[OF "2.prems"(1,2,3)] "2.prems"(4) by simp
  then show ?case by auto
next
  case (3 d m)
  then show ?case by simp
next
  case (4 d m i js)
  note wf = "4.prems"(1) and m = "4.prems"(2)
  have i: "lo \<le> i" "i < currentId st" using "4.prems"(3) by auto
  then have "nodeMap st i \<noteq> None" using wf by (simp add: wellFormed_def)
  then obtain c where c: "m i = Some c" using m by auto
  have kids: "\<forall>j \<in> set (n_children c). Suc i \<le> j \<and> j < currentId st"
    using c wf m by (fastforce simp: wellFormed_def)
  have "currentId st - Suc i < d" using i "4.prems"(4) by linarith
  from "4.IH"(1)[OF c wf m kids this] obtain t where t: "treeOf d m c = Some t" by auto
  have "treesOf d m js \<noteq> None"
    using "4.IH"(2)[OF c t wf m _ "4.prems"(4)] "4.prems"(3) by simp
  then show ?case using c t by auto
qed

lemma provisionalTree_total: "provisionalTree (pass1 document jsonDocument tags) \<noteq> None"
  unfolding provisionalTree_def
  using treeOf_total(1)[OF wellFormed_pass1 refl, where lo = 0
      and c = "rootNode (pass1 document jsonDocument tags)"
      and d = "Suc (currentId (pass1 document jsonDocument tags))"]
    wellFormed_pass1[of document jsonDocument tags]
  by (simp add: wellFormed_def)

text \<open>\<^verbatim>\<open>getObjectTree\<close> returns, with a root or with a \<^verbatim>\<open>TypeError\<close>.\<close>

lemma getObjectTree_returns:
  "\<exists>r. getObjectTree document yamlDocument tags = Some r"
proof (cases "firstDocument yamlDocument")
  case None
  then show ?thesis by (simp add: getObjectTree_def)
next
  case (Some jsonDocument)
  show ?thesis
  proof (cases document)
    case None
    then show ?thesis using Some by (simp add: getObjectTree_def)
  next
    case (Some doc)
    obtain t where "provisionalTree (pass1 doc jsonDocument tags) = Some t"
      using provisionalTree_total[of doc jsonDocument tags] by auto
    then show ?thesis using Some \<open>firstDocument yamlDocument = Some jsonDocument\<close>
      by (simp add: getObjectTree_def Let_def del: firstDocument.simps)
  qed
qed

subsection \<open>Below a task\<close>

lemma nearestMapped_step:
  "nearestMapped st (Some q) =
     (case mapped st q of Some r \<Rightarrow> Some r | None \<Rightarrow> nearestMapped st (parent q))"
  by (cases q) (simp_all del: mapped.simps split: option.splits)

lemma wellFormed_entry: "wellFormed st \<Longrightarrow> i < currentId st \<Longrightarrow> \<exists>c. nodeMap st i = Some c"
  unfolding wellFormed_def by (metis not_Some_eq)

lemma shadow_self:
  "tempId st q = None \<Longrightarrow> shadow st (parent q) \<Longrightarrow> shadow st (Some q)"
  by (simp add: shadow_def nearestMapped_step)

lemma cleanPath_top: "cleanPath m r \<Longrightarrow> r \<noteq> [] \<Longrightarrow> \<not> recognizedArray m"
  unfolding cleanPath_def by (metis append_Nil2 deref.simps(1))

lemma cleanPath_child:
  assumes "cleanPath m (r @ [j])" "j < length (childNodes m)"
  shows "cleanPath (childNodes m ! j) r"
  unfolding cleanPath_def
proof (intro allI impI, elim conjE)
  fix r1 r2 n
  assume "r = r1 @ r2" "r1 \<noteq> []" "deref (childNodes m ! j) r2 = Some n"
  then have "r @ [j] = r1 @ (r2 @ [j])" "deref m (r2 @ [j]) = Some n"
    using assms(2) by (simp_all add: deref_snoc)
  then show "\<not> recognizedArray n"
    using assms(1) \<open>r1 \<noteq> []\<close> unfolding cleanPath_def by blast
qed

lemma cleanBetween_child:
  assumes "cleanBetween m (p @ [j]) r" "j < length (childNodes m)"
  shows "cleanBetween (childNodes m ! j) p r"
  unfolding cleanBetween_def
proof (intro allI impI, elim conjE)
  fix ra rb n
  assume "r = ra @ rb" "ra \<noteq> []" "rb \<noteq> []" "deref (childNodes m ! j) (rb @ p) = Some n"
  then have "deref m (rb @ p @ [j]) = Some n"
    using assms(2) deref_snoc[of m "rb @ p" j] by simp
  then show "\<not> recognizedArray n"
    using assms(1) \<open>r = ra @ rb\<close> \<open>ra \<noteq> []\<close> \<open>rb \<noteq> []\<close> unfolding cleanBetween_def by blast
qed

lemma cleanBetween_value:
  assumes "cleanBetween m [] (r @ [j])" "j < length (childNodes m)"
  shows "cleanPath (childNodes m ! j) r"
  unfolding cleanPath_def
proof (intro allI impI, elim conjE)
  fix r1 r2 n
  assume "r = r1 @ r2" "r1 \<noteq> []" "deref (childNodes m ! j) r2 = Some n"
  then have "r @ [j] = r1 @ (r2 @ [j])" "r2 @ [j] \<noteq> []" "deref m ((r2 @ [j]) @ []) = Some n"
    using assms(2) by (simp_all add: deref_snoc)
  then show "\<not> recognizedArray n"
    using assms(1) \<open>r1 \<noteq> []\<close> unfolding cleanBetween_def by blast
qed

lemma suffix_sibling: "suffix (j' # q) (x @ j # q) \<Longrightarrow> j' = j"
proof -
  assume "suffix (j' # q) (x @ j # q)"
  then obtain z where "x @ j # q = z @ j' # q" by (auto simp: suffix_def)
  then have "(x @ [j]) @ q = (z @ [j']) @ q" by simp
  then have "x @ [j] = z @ [j']" by (simp only: append_same_eq)
  then show ?thesis by simp
qed

lemma suffix_not_longer: "suffix x q \<Longrightarrow> \<not> suffix (j # q) x"
  by (metis Suc_n_not_le_n length_Cons suffix_length_le suffix_order.trans suffix_order.refl)

lemma suffix_two_siblings: "suffix (i # p) y \<Longrightarrow> suffix (j # p) y \<Longrightarrow> i = j"
proof -
  assume "suffix (i # p) y" "suffix (j # p) y"
  then obtain x where "y = x @ i # p" by (auto simp: suffix_def)
  then show ?thesis using \<open>suffix (j # p) y\<close> suffix_sibling[of j p x i] by simp
qed

text \<open>A node whose nearest mapped ancestor is a task, and that is no recognized array, is skipped.\<close>

lemma visitor_under_task:
  "shadow st (parent q) \<Longrightarrow> \<not> recognizedArray m \<Longrightarrow> visitor document rt q m st = st"
  by (cases m) (auto simp: shadow_def Let_def)

text \<open>A task that had no tag is, after the visitor, the nearest node with an entry itself, or skipped below a task.\<close>

lemma visitor_task_shadow:
  assumes wf: "wellFormed st" and q0: "tempId st q = None"
  shows "shadow (visitor document rt q (PropertyASTNode s e ''task'' v) st) (Some q)"
proof (cases "shadow st (parent q)")
  case True
  then have "visitor document rt q (PropertyASTNode s e ''task'' v) st = st"
    by (rule visitor_under_task) simp
  then show ?thesis using shadow_self[OF q0 True] by simp
next
  case False
  let ?P = "PropertyASTNode s e ''task'' v"
  let ?n = "case nearestObject rt (parent q) of None \<Rightarrow> ?P | Some m \<Rightarrow> m"
  let ?y = "\<lparr>n_key = ''task'', n_value = getValue v, n_children = [],
             n_startPosition = positionAt document (nstart ?n),
             n_endPosition = positionAt document (nend ?n), n_isArray = False\<rparr>"
  have v: "visitor document rt q ?P st
              = attach (register st q ?y) (nearestMapped st (parent q)) (currentId st)"
    using False by (auto simp: shadow_def recognizedKey_def Let_def split: option.splits)
  have fresh: "nodeMap st (currentId st) = None" using wf by (auto simp: wellFormed_def)
  have "nodeMap (attach (register st q ?y) (nearestMapped st (parent q)) (currentId st)) (currentId st) = Some ?y"
  proof (cases "nearestMapped st (parent q)")
    case None
    then show ?thesis by (simp add: attach_def register_def)
  next
    case (Some a)
    then obtain pid c where a: "a = (pid, c)" by (cases a)
    then have "nodeMap st pid = Some c" using Some nearestMapped_Some by blast
    then have "pid \<noteq> currentId st" using fresh by auto
    then show ?thesis using Some a by (simp add: attach_def register_def pushChild_def split: option.splits)
  qed
  then have "mapped (visitor document rt q ?P st) q = Some (currentId st, ?y)"
    unfolding v by simp
  then show ?thesis by (simp add: shadow_def nearestMapped_step del: mapped.simps visitor.simps)
qed

text \<open>The nearest mapped node above stays a task while the store grows and the tags above stay.\<close>

lemma shadow_preserved:
  assumes "wellFormed st" "tagsBounded st" "extends st st'"
    and "\<And>x. suffix x q \<Longrightarrow> tempId st' x = tempId st x"
    and "shadow st (Some q)"
  shows "shadow st' (Some q)"
proof -
  have m: "(mapped st x = None \<longrightarrow> mapped st' x = None)
        \<and> (\<forall>i c. mapped st x = Some (i, c) \<longrightarrow> (\<exists>c'. mapped st' x = Some (i, c') \<and> n_key c' = n_key c))"
    if "suffix x q" for x
  proof -
    have t: "tempId st' x = tempId st x" using that assms(4) by simp
    show ?thesis
    proof (cases "tempId st x")
      case None
      then show ?thesis using t by simp
    next
      case (Some i)
      then have "i < currentId st" using assms(2) by (simp add: tagsBounded_def)
      then obtain c where c: "nodeMap st i = Some c" using assms(1) wellFormed_entry by blast
      then obtain c' where "nodeMap st' i = Some c'" "n_key c' = n_key c"
        using assms(3) by (auto simp: extends_def cellLabel_def)
      then show ?thesis using Some t c by simp
    qed
  qed
  have "\<exists>c'. nearestMapped st' (Some x) = Some (i, c') \<and> n_key c' = n_key c"
    if "suffix x q" "nearestMapped st (Some x) = Some (i, c)" for x i c
    using that
  proof (induction x)
    case Nil
    then show ?case using m[of "[]"] by (simp del: mapped.simps)
  next
    case (Cons j x)
    have sx: "suffix x q" using Cons.prems(1) by (meson suffix_ConsD)
    show ?case
    proof (cases "mapped st (j # x)")
      case None
      then have "mapped st' (j # x) = None" using m[OF Cons.prems(1)] by simp
      moreover have "nearestMapped st (Some x) = Some (i, c)" using None Cons.prems(2) by (simp del: mapped.simps)
      ultimately show ?thesis using Cons.IH[OF sx] by (simp del: mapped.simps)
    next
      case (Some a)
      then have "a = (i, c)" using Cons.prems(2) by (simp del: mapped.simps)
      then obtain c' where "mapped st' (j # x) = Some (i, c')" "n_key c' = n_key c"
        using m[OF Cons.prems(1)] Some by blast
      then show ?thesis by (simp del: mapped.simps)
    qed
  qed
  then show ?thesis using assms(5) unfolding shadow_def by (metis suffix_order.refl)
qed

text \<open>
  Below a node whose nearest entry is a task, with no recognized array on the way, a
  Property node with a recognized key gets no tag; first from the parent of the subtree
  visited, then from a task inside the subtree visited.
\<close>

lemma under_task_untagged:
  "wellFormed st \<Longrightarrow> tagsBounded st \<Longrightarrow> shadow st (parent q) \<Longrightarrow>
     (\<And>x. tempId st (x @ q) = None) \<Longrightarrow>
     deref m r = Some (PropertyASTNode s e k v) \<Longrightarrow> recognizedKey k \<Longrightarrow> cleanPath m r \<Longrightarrow>
     tempId (visit (visitor document rt) q m st) (r @ q) = None"
  "wellFormed st \<Longrightarrow> tagsBounded st \<Longrightarrow> shadow st (Some q) \<Longrightarrow>
     (\<And>x j'. i \<le> j' \<Longrightarrow> tempId st (x @ j' # q) = None) \<Longrightarrow> j < length cs \<Longrightarrow>
     deref (cs ! j) r = Some (PropertyASTNode s e k v) \<Longrightarrow> recognizedKey k \<Longrightarrow>
     cleanPath (cs ! j) r \<Longrightarrow>
     tempId (visitChildren (visitor document rt) q i cs st) (r @ (i + j) # q) = None"
proof (induction "visitor document rt" q m st and "visitor document rt" q i cs st
       arbitrary: r and r j rule: visit_visitChildren.induct)
  case (1 q s' e' props st)
  let ?m = "ObjectASTNode s' e' props"
  have same: "visitor document rt q ?m st = st" by simp
  have q0: "tempId st q = None" using "1.prems"(4)[of "[]"] by simp
  then have sh: "shadow st (Some q)"
    using "1.prems"(3) by (rule shadow_self)
  show ?case
  proof (cases r rule: rev_cases)
    case Nil
    then show ?thesis using "1.prems"(5) by simp
  next
    case (snoc r' j)
    then have j: "j < length props" and d: "deref (props ! j) r' = Some (PropertyASTNode s e k v)"
      using "1.prems"(5) by (auto simp: deref_snoc split: if_splits)
    have cp: "cleanPath (props ! j) r'"
      using cleanPath_child[of ?m r' j] "1.prems"(7) snoc j by simp
    have fr: "\<And>x j'. 0 \<le> j' \<Longrightarrow> tempId st (x @ j' # q) = None"
      using "1.prems"(4)[of "_ @ [_]"] by simp
    show ?thesis
      using "1.hyps"[unfolded same, OF "1.prems"(1,2) sh fr j d "1.prems"(6) cp] snoc
      by simp
  qed
next
  case (2 q s' e' loc' items' st)
  let ?m = "ArrayASTNode s' e' loc' items'"
  show ?case
  proof (cases r rule: rev_cases)
    case Nil
    then show ?thesis using "2.prems"(5) by simp
  next
    case (snoc r' j)
    then have "\<not> recognizedArray ?m" using cleanPath_top[OF "2.prems"(7)] by simp
    then have same: "visitor document rt q ?m st = st" by simp
    have q0: "tempId st q = None" using "2.prems"(4)[of "[]"] by simp
    then have sh: "shadow st (Some q)"
      using "2.prems"(3) by (rule shadow_self)
    have j: "j < length items'" and d: "deref (items' ! j) r' = Some (PropertyASTNode s e k v)"
      using "2.prems"(5) snoc by (auto simp: deref_snoc split: if_splits)
    have cp: "cleanPath (items' ! j) r'"
      using cleanPath_child[of ?m r' j] "2.prems"(7) snoc j by simp
    have fr: "\<And>x j'. 0 \<le> j' \<Longrightarrow> tempId st (x @ j' # q) = None"
      using "2.prems"(4)[of "_ @ [_]"] by simp
    show ?thesis
      using "2.hyps"[unfolded same, OF "2.prems"(1,2) sh fr j d "2.prems"(6) cp] snoc same
      by (simp del: visitor.simps)
  qed
next
  case (3 q s' e' k' v' st)
  let ?m = "PropertyASTNode s' e' k' v'"
  have same: "visitor document rt q ?m st = st"
    using visitor_under_task[OF "3.prems"(3), of ?m] by simp
  have q0: "tempId st q = None" using "3.prems"(4)[of "[]"] by simp
  then have sh: "shadow st (parent (0 # q))"
    using shadow_self[OF _ "3.prems"(3)] by simp
  show ?case
  proof (cases r rule: rev_cases)
    case Nil
    have "\<not> suffix (0 # q) q" by (simp add: suffix_not_longer)
    then have "tempId (visit (visitor document rt) (0 # q) v' st) q = tempId st q"
      by (rule visit_frame(1))
    then show ?thesis using Nil q0 same by (simp del: visitor.simps)
  next
    case (snoc r' j)
    then have j: "j = 0" and d: "deref v' r' = Some (PropertyASTNode s e k v)"
      using "3.prems"(5) by (auto simp: deref_snoc split: if_splits)
    have cp: "cleanPath v' r'"
      using cleanPath_child[of ?m r' 0] "3.prems"(7) snoc j by simp
    have fr: "\<And>x. tempId st (x @ 0 # q) = None"
      using "3.prems"(4)[of "_ @ [0]"] by simp
    show ?thesis
      using "3.hyps"[unfolded same, OF "3.prems"(1,2) sh fr d "3.prems"(6) cp] snoc j same
      by (simp del: visitor.simps)
  qed
next
  case (4 q s' e' x st)
  then show ?case by (cases r rule: rev_cases) (auto simp: deref_snoc)
next
  case (5 q i st)
  then show ?case by simp
next
  case (6 q i c cs st)
  let ?st1 = "visit (visitor document rt) (i # q) c st"
  have fr1: "\<And>x. tempId st (x @ i # q) = None" using "6.prems"(4) by simp
  show ?case
  proof (cases j)
    case 0
    have sh0: "shadow st (parent (i # q))" using "6.prems"(3) by simp
    have d0: "deref c r = Some (PropertyASTNode s e k v)" using "6.prems"(6) 0 by simp
    have cp0: "cleanPath c r" using "6.prems"(8) 0 by simp
    have "tempId ?st1 (r @ i # q) = None"
      by (rule "6.hyps"(1)[OF "6.prems"(1,2) sh0 fr1 d0 "6.prems"(7) cp0])
    moreover have "tempId (visitChildren (visitor document rt) q (Suc i) cs ?st1) (r @ i # q)
        = tempId ?st1 (r @ i # q)"
    proof (rule visit_frame(2))
      fix j' assume "Suc i \<le> j'"
      then show "\<not> suffix (j' # q) (r @ i # q)" using suffix_sibling[of j' q r i] by auto
    qed
    ultimately show ?thesis using 0 by simp
  next
    case (Suc j2)
    have wf1: "wellFormed ?st1" using "6.prems"(1) by (rule visit_wellFormed)
    have tb1: "tagsBounded ?st1" using "6.prems"(2) by (rule visit_tagsBounded)
    have ex1: "extends st ?st1" using "6.prems"(1) by (rule visit_extends)
    have keep: "tempId ?st1 x = tempId st x" if "\<not> suffix (i # q) x" for x
      using that by (rule visit_frame(1))
    have above: "tempId ?st1 x = tempId st x" if "suffix x q" for x
      by (rule keep[OF suffix_not_longer[OF that]])
    have sh1: "shadow ?st1 (Some q)"
      by (rule shadow_preserved[OF "6.prems"(1,2) ex1 above "6.prems"(3)])
    have fr: "tempId ?st1 (x @ j' # q) = None" if "Suc i \<le> j'" for x j'
    proof -
      have "\<not> suffix (i # q) (x @ j' # q)" using suffix_sibling[of i q x j'] that by auto
      then show ?thesis using keep "6.prems"(4)[of j' x] that by simp
    qed
    have j2: "j2 < length cs" using "6.prems"(5) Suc by simp
    have d2: "deref (cs ! j2) r = Some (PropertyASTNode s e k v)" using "6.prems"(6) Suc by simp
    have cp2: "cleanPath (cs ! j2) r" using "6.prems"(8) Suc by simp
    have "tempId (visitChildren (visitor document rt) q (Suc i) cs ?st1) (r @ (Suc i + j2) # q) = None"
      by (rule "6.hyps"(2)[OF wf1 tb1 sh1 fr j2 d2 "6.prems"(7) cp2])
    then show ?thesis using Suc by simp
  qed
qed

lemma below_task_untagged:
  "wellFormed st \<Longrightarrow> tagsBounded st \<Longrightarrow> (\<And>x. tempId st (x @ q) = None) \<Longrightarrow>
     deref m p = Some (PropertyASTNode sP eP ''task'' vP) \<Longrightarrow>
     deref m (r @ p) = Some (PropertyASTNode s e k v) \<Longrightarrow> r \<noteq> [] \<Longrightarrow> recognizedKey k \<Longrightarrow>
     cleanBetween m p r \<Longrightarrow>
     tempId (visit (visitor document rt) q m st) (r @ p @ q) = None"
  "wellFormed st \<Longrightarrow> tagsBounded st \<Longrightarrow> (\<And>x j'. i \<le> j' \<Longrightarrow> tempId st (x @ j' # q) = None) \<Longrightarrow>
     j < length cs \<Longrightarrow>
     deref (cs ! j) p = Some (PropertyASTNode sP eP ''task'' vP) \<Longrightarrow>
     deref (cs ! j) (r @ p) = Some (PropertyASTNode s e k v) \<Longrightarrow> r \<noteq> [] \<Longrightarrow> recognizedKey k \<Longrightarrow>
     cleanBetween (cs ! j) p r \<Longrightarrow>
     tempId (visitChildren (visitor document rt) q i cs st) (r @ p @ (i + j) # q) = None"
proof (induction "visitor document rt" q m st and "visitor document rt" q i cs st
       arbitrary: p and p j rule: visit_visitChildren.induct)
  case (1 q s' e' props st)
  let ?m = "ObjectASTNode s' e' props"
  have same: "visitor document rt q ?m st = st" by simp
  show ?case
  proof (cases p rule: rev_cases)
    case Nil
    then show ?thesis using "1.prems"(4) by simp
  next
    case (snoc p' j)
    then have j: "j < length props" and dP: "deref (props ! j) p' = Some (PropertyASTNode sP eP ''task'' vP)"
      using "1.prems"(4) by (auto simp: deref_snoc split: if_splits)
    have dD: "deref (props ! j) (r @ p') = Some (PropertyASTNode s e k v)"
      using "1.prems"(5) snoc j deref_snoc[of ?m "r @ p'" j] by simp
    have cb: "cleanBetween (props ! j) p' r"
      using cleanBetween_child[of ?m p' j r] "1.prems"(8) snoc j by simp
    have fr: "\<And>x j'. 0 \<le> j' \<Longrightarrow> tempId st (x @ j' # q) = None"
      using "1.prems"(3)[of "_ @ [_]"] by simp
    have "tempId (visitChildren (visitor document rt) q 0 props st) (r @ p' @ (0 + j) # q) = None"
      by (rule "1.hyps"[unfolded same, OF "1.prems"(1,2) fr j dP dD "1.prems"(6,7) cb])
    then show ?thesis using snoc same by (simp del: visitor.simps)
  qed
next
  case (2 q s' e' loc' items' st)
  let ?m = "ArrayASTNode s' e' loc' items'"
  let ?st1 = "visitor document rt q ?m st"
  show ?case
  proof (cases p rule: rev_cases)
    case Nil
    then show ?thesis using "2.prems"(4) by simp
  next
    case (snoc p' j)
    then have j: "j < length items'" and dP: "deref (items' ! j) p' = Some (PropertyASTNode sP eP ''task'' vP)"
      using "2.prems"(4) by (auto simp: deref_snoc split: if_splits)
    have dD: "deref (items' ! j) (r @ p') = Some (PropertyASTNode s e k v)"
      using "2.prems"(5) snoc j deref_snoc[of ?m "r @ p'" j] by simp
    have cb: "cleanBetween (items' ! j) p' r"
      using cleanBetween_child[of ?m p' j r] "2.prems"(8) snoc j by simp
    have wf1: "wellFormed ?st1" using "2.prems"(1) by (rule visitor_wellFormed)
    have tb1: "tagsBounded ?st1" using "2.prems"(2) by (rule tagsBounded_visitor)
    have fr: "tempId ?st1 (x @ j' # q) = None" if "0 \<le> j'" for x j'
    proof -
      have "length (x @ j' # q) \<noteq> length q" by simp
      then have "x @ j' # q \<noteq> q" by metis
      then have "tempId ?st1 (x @ j' # q) = tempId st (x @ j' # q)" by (rule visitor_tempId_other)
      then show ?thesis using "2.prems"(3)[of "x @ [j']"] by simp
    qed
    have "tempId (visitChildren (visitor document rt) q 0 items' ?st1) (r @ p' @ (0 + j) # q) = None"
      by (rule "2.hyps"[OF wf1 tb1 fr j dP dD "2.prems"(6,7) cb])
    then show ?thesis using snoc by (simp del: visitor.simps)
  qed
next
  case (3 q s' e' k' v' st)
  let ?m = "PropertyASTNode s' e' k' v'"
  let ?st1 = "visitor document rt q ?m st"
  have wf1: "wellFormed ?st1" using "3.prems"(1) by (rule visitor_wellFormed)
  have tb1: "tagsBounded ?st1" using "3.prems"(2) by (rule tagsBounded_visitor)
  have fr: "tempId ?st1 (x @ 0 # q) = None" for x
  proof -
    have "length (x @ 0 # q) \<noteq> length q" by simp
    then have "x @ 0 # q \<noteq> q" by metis
    then have "tempId ?st1 (x @ 0 # q) = tempId st (x @ 0 # q)" by (rule visitor_tempId_other)
    then show ?thesis using "3.prems"(3)[of "x @ [0]"] by simp
  qed
  show ?case
  proof (cases p rule: rev_cases)
    case Nil
    then have m: "k' = ''task''" using "3.prems"(4) by simp
    obtain r' j where r: "r = r' @ [j]" using "3.prems"(6) by (cases r rule: rev_cases) auto
    then have j: "j = 0" and dD: "deref v' r' = Some (PropertyASTNode s e k v)"
      using "3.prems"(5) Nil by (auto simp: deref_snoc split: if_splits)
    have q0: "tempId st q = None" using "3.prems"(3)[of "[]"] by simp
    have sh: "shadow ?st1 (parent (0 # q))"
      using visitor_task_shadow[OF "3.prems"(1) q0, of document rt s' e' v'] m by simp
    have cp: "cleanPath v' r'"
      using cleanBetween_value[of ?m r' 0] "3.prems"(8) Nil r j by simp
    have "tempId (visit (visitor document rt) (0 # q) v' ?st1) (r' @ 0 # q) = None"
      by (rule under_task_untagged(1)[OF wf1 tb1 sh fr dD "3.prems"(7) cp])
    then show ?thesis using Nil r j by (simp del: visitor.simps)
  next
    case (snoc p' j)
    then have j: "j = 0" and dP: "deref v' p' = Some (PropertyASTNode sP eP ''task'' vP)"
      using "3.prems"(4) by (auto simp: deref_snoc split: if_splits)
    have dD: "deref v' (r @ p') = Some (PropertyASTNode s e k v)"
      using "3.prems"(5) snoc j deref_snoc[of ?m "r @ p'" 0] by simp
    have cb: "cleanBetween v' p' r"
      using cleanBetween_child[of ?m p' 0 r] "3.prems"(8) snoc j by simp
    have "tempId (visit (visitor document rt) (0 # q) v' ?st1) (r @ p' @ 0 # q) = None"
      by (rule "3.hyps"[OF wf1 tb1 fr dP dD "3.prems"(6,7) cb])
    then show ?thesis using snoc j by (simp del: visitor.simps)
  qed
next
  case (4 q s' e' x st)
  then show ?case by (cases p rule: rev_cases) (auto simp: deref_snoc)
next
  case (5 q i st)
  then show ?case by simp
next
  case (6 q i c cs st)
  let ?st1 = "visit (visitor document rt) (i # q) c st"
  have fr1: "\<And>x. tempId st (x @ i # q) = None" using "6.prems"(3) by simp
  show ?case
  proof (cases j)
    case 0
    have dP: "deref c p = Some (PropertyASTNode sP eP ''task'' vP)" using "6.prems"(5) 0 by simp
    have dD: "deref c (r @ p) = Some (PropertyASTNode s e k v)" using "6.prems"(6) 0 by simp
    have cb: "cleanBetween c p r" using "6.prems"(9) 0 by simp
    have "tempId ?st1 (r @ p @ i # q) = None"
      by (rule "6.hyps"(1)[OF "6.prems"(1,2) fr1 dP dD "6.prems"(7,8) cb])
    moreover have "tempId (visitChildren (visitor document rt) q (Suc i) cs ?st1) ((r @ p) @ i # q)
        = tempId ?st1 ((r @ p) @ i # q)"
    proof (rule visit_frame(2))
      fix j' assume "Suc i \<le> j'"
      then show "\<not> suffix (j' # q) ((r @ p) @ i # q)" using suffix_sibling[of j' q "r @ p" i] by auto
    qed
    ultimately show ?thesis using 0 by simp
  next
    case (Suc j2)
    have wf1: "wellFormed ?st1" using "6.prems"(1) by (rule visit_wellFormed)
    have tb1: "tagsBounded ?st1" using "6.prems"(2) by (rule visit_tagsBounded)
    have keep: "tempId ?st1 x = tempId st x" if "\<not> suffix (i # q) x" for x
      using that by (rule visit_frame(1))
    have fr: "tempId ?st1 (x @ j' # q) = None" if "Suc i \<le> j'" for x j'
    proof -
      have "\<not> suffix (i # q) (x @ j' # q)" using suffix_sibling[of i q x j'] that by auto
      then show ?thesis using keep "6.prems"(3)[of j' x] that by simp
    qed
    have j2: "j2 < length cs" using "6.prems"(4) Suc by simp
    have dP: "deref (cs ! j2) p = Some (PropertyASTNode sP eP ''task'' vP)" using "6.prems"(5) Suc by simp
    have dD: "deref (cs ! j2) (r @ p) = Some (PropertyASTNode s e k v)" using "6.prems"(6) Suc by simp
    have cb: "cleanBetween (cs ! j2) p r" using "6.prems"(9) Suc by simp
    have "tempId (visitChildren (visitor document rt) q (Suc i) cs ?st1) (r @ p @ (Suc i + j2) # q) = None"
      by (rule "6.hyps"(2)[OF wf1 tb1 fr j2 dP dD "6.prems"(7,8) cb])
    then show ?thesis using Suc by simp
  qed
qed

subsection \<open>The outline objects and the nodes they were made for\<close>

text \<open>The flatten pass on objects with their identity is the flatten pass.\<close>

lemma setObjectChildren_fields [simp]:
  "objectId (setObjectChildren x cs) = objectId x"
  "objectKey (setObjectChildren x cs) = objectKey x"
  "objectValue (setObjectChildren x cs) = objectValue x"
  "objectIsArray (setObjectChildren x cs) = objectIsArray x"
  "objectChildren (setObjectChildren x cs) = cs"
  by (cases x; simp)+

lemma flattenObjects_fields [simp]:
  "objectId (flattenObjects x) = objectId x"
  "objectKey (flattenObjects x) = objectKey x"
  "objectValue (flattenObjects x) = objectValue x"
  "objectIsArray (flattenObjects x) = objectIsArray x"
  "objectChildren (flattenObjects x) = newObjectChildren (map flattenObjects (objectChildren x))"
  by (cases x; simp)+

lemma withoutId_fields [simp]:
  "key (withoutId x) = objectKey x"
  "nodeValue (withoutId x) = objectValue x"
  "isArray (withoutId x) = objectIsArray x"
  "children (withoutId x) = map withoutId (objectChildren x)"
  by (cases x; simp)+

lemma withoutId_setObjectChildren [simp]:
  "withoutId (setObjectChildren x cs) = setChildren (withoutId x) (map withoutId cs)"
  by (cases x) simp

lemma flattenObjectLoop_withoutId:
  "flattenObjectLoop i cs new = (cs', new') \<Longrightarrow>
     flattenLoop i (map withoutId cs) new = (map withoutId cs', new')"
proof (induction i cs new rule: flattenObjectLoop.induct)
  case (1 i cs new)
  show ?case
  proof (cases "i < length cs")
    case False
    then show ?thesis using 1(3)
      by (subst flattenLoop.simps) (simp add: flattenObjectLoop.simps)
  next
    case True
    show ?thesis
    proof (cases "objectIsArray (cs ! i) \<and> i \<noteq> 0")
      case drop: True
      let ?cs1 = "cs[i - 1 := setObjectChildren (cs ! (i - 1))
                            (objectChildren (cs ! (i - 1)) @ objectChildren (cs ! i))]"
      have run: "flattenObjectLoop (Suc i) ?cs1 new = (cs', new')"
        using 1(3) True drop by (subst (asm) flattenObjectLoop.simps) simp
      have "flattenLoop (Suc i) (map withoutId ?cs1) new = (map withoutId cs', new')"
        by (rule 1(1)[OF True drop run])
      moreover have "map withoutId ?cs1 =
          (map withoutId cs)[i - 1 := setChildren (map withoutId cs ! (i - 1))
             (children (map withoutId cs ! (i - 1)) @ children (map withoutId cs ! i))]"
        using True drop by (simp add: map_update)
      ultimately show ?thesis using True drop
        by (subst flattenLoop.simps) simp
    next
      case keep: False
      have run: "flattenObjectLoop (Suc i) cs (new @ [i]) = (cs', new')"
        using 1(3) True keep by (subst (asm) flattenObjectLoop.simps) auto
      have "flattenLoop (Suc i) (map withoutId cs) (new @ [i]) = (map withoutId cs', new')"
        by (rule 1(2)[OF True keep run])
      then show ?thesis using True keep
        by (subst flattenLoop.simps) auto
    qed
  qed
qed

text \<open>What the loop returns: the same objects at the same slots, with children taken from the children there were.\<close>

lemma flattenObjectLoop_members:
  "flattenObjectLoop i cs new = (cs', new') \<Longrightarrow>
     length cs' = length cs
     \<and> (\<forall>j < length cs. idLabel (cs' ! j) = idLabel (cs ! j)
           \<and> set (objectChildren (cs' ! j)) \<subseteq> (\<Union>c \<in> set cs. set (objectChildren c)))
     \<and> set new' \<subseteq> set new \<union> {i..<length cs}"
proof (induction i cs new rule: flattenObjectLoop.induct)
  case (1 i cs new)
  show ?case
  proof (cases "i < length cs")
    case False
    then have "cs' = cs" "new' = new" using 1(3) by (simp_all add: flattenObjectLoop.simps)
    then show ?thesis using nth_mem by fastforce
  next
    case True
    show ?thesis
    proof (cases "objectIsArray (cs ! i) \<and> i \<noteq> 0")
      case drop: True
      let ?cs1 = "cs[i - 1 := setObjectChildren (cs ! (i - 1))
                            (objectChildren (cs ! (i - 1)) @ objectChildren (cs ! i))]"
      have run: "flattenObjectLoop (Suc i) ?cs1 new = (cs', new')"
        using 1(3) True drop by (subst (asm) flattenObjectLoop.simps) simp
      note IH = 1(1)[OF True drop run]
      have l1: "length ?cs1 = length cs" by simp
      have lab: "idLabel (?cs1 ! j) = idLabel (cs ! j)" if "j < length cs" for j
        using that by (cases "j = i - 1") (simp_all add: idLabel_def)
      have kids: "(\<Union>c \<in> set ?cs1. set (objectChildren c)) \<subseteq> (\<Union>c \<in> set cs. set (objectChildren c))"
      proof
        fix x assume "x \<in> (\<Union>c \<in> set ?cs1. set (objectChildren c))"
        then obtain c where "c \<in> set ?cs1" "x \<in> set (objectChildren c)" by blast
        then obtain j where j: "j < length cs" and x: "x \<in> set (objectChildren (?cs1 ! j))"
          by (metis in_set_conv_nth l1)
        show "x \<in> (\<Union>c \<in> set cs. set (objectChildren c))"
        proof (cases "j = i - 1")
          case True
          then have "x \<in> set (objectChildren (cs ! (i - 1))) \<or> x \<in> set (objectChildren (cs ! i))"
            using x j by simp
          moreover have "cs ! (i - 1) \<in> set cs" "cs ! i \<in> set cs"
            using \<open>i < length cs\<close> by (simp_all add: less_imp_diff_less)
          ultimately show ?thesis by blast
        next
          case False
          then have "x \<in> set (objectChildren (cs ! j))" using x by simp
          then show ?thesis using j nth_mem by blast
        qed
      qed
      from IH have IH1: "length cs' = length ?cs1"
        and IH2: "\<forall>j < length ?cs1. idLabel (cs' ! j) = idLabel (?cs1 ! j)
           \<and> set (objectChildren (cs' ! j)) \<subseteq> (\<Union>c \<in> set ?cs1. set (objectChildren c))"
        and IH3: "set new' \<subseteq> set new \<union> {Suc i..<length ?cs1}"
        by blast+
      have len: "length cs' = length cs" using IH1 l1 by (rule trans)
      have slots: "idLabel (cs' ! j) = idLabel (cs ! j)
           \<and> set (objectChildren (cs' ! j)) \<subseteq> (\<Union>c \<in> set cs. set (objectChildren c))"
        if j: "j < length cs" for j
      proof -
        have j1: "j < length ?cs1" using j by simp
        have a: "idLabel (cs' ! j) = idLabel (?cs1 ! j)"
          and b: "set (objectChildren (cs' ! j)) \<subseteq> (\<Union>c \<in> set ?cs1. set (objectChildren c))"
          using IH2 j1 by blast+
        have "idLabel (cs' ! j) = idLabel (cs ! j)" using a lab[OF j] by (rule trans)
        moreover have "set (objectChildren (cs' ! j)) \<subseteq> (\<Union>c \<in> set cs. set (objectChildren c))"
          using b kids by (rule order_trans)
        ultimately show ?thesis by (rule conjI)
      qed
      have "{Suc i..<length ?cs1} \<subseteq> {i..<length cs}" unfolding l1 by auto
      then have "set new' \<subseteq> set new \<union> {i..<length cs}" using IH3 by blast
      then show ?thesis using len slots by blast
    next
      case keep: False
      have run: "flattenObjectLoop (Suc i) cs (new @ [i]) = (cs', new')"
        using 1(3) True keep by (subst (asm) flattenObjectLoop.simps) auto
      note IH = 1(2)[OF True keep run]
      then show ?thesis using True by auto
    qed
  qed
qed

lemma newObjectChildren_withoutId:
  "newChildren (map withoutId cs) = map withoutId (newObjectChildren cs)"
proof (cases "length cs = 1 \<and> objectIsArray (cs ! 0)")
  case True
  then show ?thesis by (simp add: newChildren_def newObjectChildren_def)
next
  case False
  obtain cs' new' where run: "flattenObjectLoop 0 cs [] = (cs', new')" by fastforce
  have mem: "length cs' = length cs" "set new' \<subseteq> {0..<length cs}"
    using flattenObjectLoop_members[OF run] by auto
  have "map (\<lambda>j. map withoutId cs' ! j) new' = map withoutId (map (\<lambda>j. cs' ! j) new')"
    using mem by (auto simp: subset_iff)
  then show ?thesis using False flattenObjectLoop_withoutId[OF run] run
    by (auto simp: newChildren_def newObjectChildren_def)
qed

lemma flattenObjects_withoutId: "flattenArrays (withoutId x) = withoutId (flattenObjects x)"
proof (induction x)
  case (OutlineObject i k v cs s e a)
  have e: "map (flattenArrays \<circ> withoutId) cs = map withoutId (map flattenObjects cs)"
    using OutlineObject.IH by simp
  have "newChildren (map (flattenArrays \<circ> withoutId) cs)
      = map withoutId (newObjectChildren (map flattenObjects cs))"
    unfolding e by (rule newObjectChildren_withoutId)
  then show ?case by simp
qed

lemma objectOf_withoutId:
  "treeOf d m c = map_option withoutId (objectOf d m oid c)"
  "treesOf d m js = map_option (map withoutId) (objectsOf d m js)"
proof (induction d m oid c and d m js rule: objectOf_objectsOf.induct)
  case (1 m oid c)
  then show ?case by simp
next
  case (2 d m oid c)
  then show ?case by (cases "objectsOf d m (n_children c)") auto
next
  case (3 d m)
  then show ?case by simp
next
  case (4 d m i js)
  show ?case
  proof (cases "m i")
    case None
    then show ?thesis by simp
  next
    case (Some c)
    note c = this
    show ?thesis
    proof (cases "objectOf d m (Some i) c")
      case None
      then show ?thesis using c "4.IH"(1)[OF c] by simp
    next
      case (Some t)
      then show ?thesis using c "4.IH"(1)[OF c] "4.IH"(2)[OF c Some]
        by (cases "objectsOf d m js") auto
    qed
  qed
qed

lemma getObjectTree_withoutId:
  "getObjectTree document yamlDocument tags =
     map_option (map_sum id (map_prod withoutId id)) (getObjectTreeWithIds document yamlDocument tags)"
proof -
  have "provisionalTree st = map_option withoutId (provisionalObjects st)" for st
    unfolding provisionalTree_def provisionalObjects_def by (rule objectOf_withoutId(1))
  then show ?thesis
    by (auto simp: getObjectTree_def getObjectTreeWithIds_def Let_def flattenObjects_withoutId
        split: option.splits simp del: firstDocument.simps)
qed

lemma objectsBelow_children:
  "set (objectsBelow t) = (\<Union>c \<in> set (objectChildren t). insert c (set (objectsBelow c)))"
  by (cases t) auto

lemma idLabel_flattenObjects [simp]: "idLabel (flattenObjects t) = idLabel t"
  by (simp add: idLabel_def)

lemma newObjectChildren_members:
  assumes "x \<in> set (newObjectChildren cs)"
  shows "x \<in> (\<Union>c \<in> set cs. set (objectChildren c))
       \<or> (\<exists>j < length cs. idLabel x = idLabel (cs ! j)
             \<and> set (objectChildren x) \<subseteq> (\<Union>c \<in> set cs. set (objectChildren c)))"
proof (cases "length cs = 1 \<and> objectIsArray (cs ! 0)")
  case True
  then have "cs ! 0 \<in> set cs" by (simp add: nth_mem)
  moreover have "x \<in> set (objectChildren (cs ! 0))" using assms True by (simp add: newObjectChildren_def)
  ultimately show ?thesis by blast
next
  case False
  obtain cs' new' where run: "flattenObjectLoop 0 cs [] = (cs', new')" by fastforce
  from flattenObjectLoop_members[OF run] have
    slots: "\<forall>j < length cs. idLabel (cs' ! j) = idLabel (cs ! j)
           \<and> set (objectChildren (cs' ! j)) \<subseteq> (\<Union>c \<in> set cs. set (objectChildren c))"
    and new: "set new' \<subseteq> {0..<length cs}" by auto
  have "newObjectChildren cs = map (\<lambda>j. cs' ! j) new'"
    using False run by (auto simp: newObjectChildren_def)
  then have "x \<in> set (map (\<lambda>j. cs' ! j) new')" using assms by simp
  then obtain j where "j \<in> set new'" "x = cs' ! j" by auto
  then have "j < length cs" using new by auto
  then show ?thesis using slots \<open>x = cs' ! j\<close> by blast
qed

text \<open>The flatten pass makes no object and changes no key, value or \<^verbatim>\<open>isArray\<close>.\<close>

lemma flattenObjects_idLabels:
  "idLabel ` set (objectsBelow (flattenObjects t)) \<subseteq> idLabel ` set (objectsBelow t)"
proof (induction t)
  case (OutlineObject i k v cs s e a)
  let ?t = "OutlineObject i k v cs s e a"
  let ?cs = "map flattenObjects cs"
  have sub: "insert c (set (objectsBelow c)) \<subseteq> set (objectsBelow ?t)" if "c \<in> set cs" for c
    using that objectsBelow_children[of ?t] by auto
  have low: "idLabel ` insert y (set (objectsBelow y)) \<subseteq> idLabel ` set (objectsBelow ?t)"
    if y: "y \<in> (\<Union>c \<in> set ?cs. set (objectChildren c))" for y
  proof -
    from y obtain c where c: "c \<in> set cs" and yc: "y \<in> set (objectChildren (flattenObjects c))"
      by auto
    have "insert y (set (objectsBelow y)) \<subseteq> set (objectsBelow (flattenObjects c))"
      using yc objectsBelow_children[of "flattenObjects c"] by blast
    then have "idLabel ` insert y (set (objectsBelow y)) \<subseteq> idLabel ` set (objectsBelow (flattenObjects c))"
      by (rule image_mono)
    also have "\<dots> \<subseteq> idLabel ` set (objectsBelow c)" by (rule OutlineObject.IH[OF c])
    also have "\<dots> \<subseteq> idLabel ` set (objectsBelow ?t)" using sub[OF c] by (intro image_mono) simp
    finally show ?thesis .
  qed
  have "idLabel ` insert x (set (objectsBelow x)) \<subseteq> idLabel ` set (objectsBelow ?t)"
    if x: "x \<in> set (newObjectChildren ?cs)" for x
    using newObjectChildren_members[OF x]
  proof (elim disjE conjE exE)
    assume "x \<in> (\<Union>c \<in> set ?cs. set (objectChildren c))"
    then show ?thesis by (rule low)
  next
    fix j assume j: "j < length ?cs" and l: "idLabel x = idLabel (?cs ! j)"
      and k: "set (objectChildren x) \<subseteq> (\<Union>c \<in> set ?cs. set (objectChildren c))"
    have j': "j < length cs" using j by simp
    have "idLabel x = idLabel (cs ! j)" using l j' by simp
    moreover have "cs ! j \<in> set (objectsBelow ?t)" using sub[of "cs ! j"] j' by simp
    ultimately have lx: "idLabel x \<in> idLabel ` set (objectsBelow ?t)" by (metis imageI)
    have "idLabel ` set (objectsBelow x) \<subseteq> idLabel ` set (objectsBelow ?t)"
    proof
      fix l' assume "l' \<in> idLabel ` set (objectsBelow x)"
      then obtain z where z: "z \<in> set (objectsBelow x)" "l' = idLabel z" by blast
      then obtain y where y: "y \<in> set (objectChildren x)" "z \<in> insert y (set (objectsBelow y))"
        using objectsBelow_children[of x] by blast
      have "y \<in> (\<Union>c \<in> set ?cs. set (objectChildren c))" using y(1) k by blast
      from low[OF this] show "l' \<in> idLabel ` set (objectsBelow ?t)" using y(2) z(2) by blast
    qed
    then show ?thesis using lx by simp
  qed
  then show ?case
    unfolding objectsBelow_children[of "flattenObjects ?t"] by (auto simp del: objectsBelow.simps)
qed

lemma objectOf_idLabels:
  "objectOf d m oid c = Some t \<Longrightarrow>
     idLabel t = (oid, cellLabel c) \<and>
     (\<forall>x \<in> set (objectsBelow t). \<exists>i c'. m i = Some c' \<and> idLabel x = (Some i, cellLabel c'))"
  "objectsOf d m js = Some ts \<Longrightarrow>
     (\<forall>t \<in> set ts. \<forall>x \<in> set (t # objectsBelow t). \<exists>i c'. m i = Some c' \<and> idLabel x = (Some i, cellLabel c'))"
proof (induction d m oid c and d m js arbitrary: t and ts rule: objectOf_objectsOf.induct)
  case (1 m oid c)
  then show ?case by simp
next
  case (2 d m oid c)
  then obtain ts where ts: "objectsOf d m (n_children c) = Some ts"
    and t: "t = OutlineObject oid (n_key c) (n_value c) ts (n_startPosition c) (n_endPosition c) (n_isArray c)"
    by (auto split: option.splits)
  show ?case using "2.IH"[OF ts] t by (auto simp: idLabel_def cellLabel_def)
next
  case (3 d m)
  then show ?case by simp
next
  case (4 d m i js)
  then obtain c t' ts' where c: "m i = Some c" and t': "objectOf d m (Some i) c = Some t'"
    and ts': "objectsOf d m js = Some ts'" and ts: "ts = t' # ts'"
    by (auto split: option.splits)
  show ?case using "4.IH"(1)[OF c t'] "4.IH"(2)[OF c t' ts'] c ts by auto
qed

text \<open>The root keeps its key and value.\<close>

lemma rootNode_pass1:
  "cellLabel (rootNode (pass1 document jsonDocument tags)) = (''root'', JString ''root'', False)"
proof -
  have "wellFormed (initialState document jsonDocument tags)"
    by (simp add: wellFormed_def initialState_def)
  then have "extends (initialState document jsonDocument tags) (pass1 document jsonDocument tags)"
    unfolding pass1_def by (rule visit_extends)
  then show ?thesis by (simp add: extends_def cellLabel_def initialState_def)
qed

lemma labelOf_created: "created n y \<Longrightarrow> labelOf n = Some (cellLabel y)"
  by (cases n) (auto simp: created_def cellLabel_def)

text \<open>The visitor makes no object, or one: stored under the next id, which it writes on the node.\<close>

lemma visitor_new:
  assumes wf: "wellFormed st"
  shows "visitor document rt p n st = st
       \<or> (currentId (visitor document rt p n st) = Suc (currentId st)
          \<and> tempId (visitor document rt p n st) p = Some (currentId st)
          \<and> (\<exists>c. nodeMap (visitor document rt p n st) (currentId st) = Some c
                 \<and> labelOf n = Some (cellLabel c)))"
proof -
  from visitor_cases[of document rt p n st] show ?thesis
  proof (elim disjE exE conjE)
    fix y assume y: "created n y"
      and v: "visitor document rt p n st
           = attach (register st p y) (nearestMapped st (parent p)) (currentId st)"
    have "\<exists>c. nodeMap (attach (register st p y) (nearestMapped st (parent p)) (currentId st)) (currentId st) = Some c
            \<and> cellLabel c = cellLabel y"
      by (auto simp: attach_def register_def pushChild_def cellLabel_def split: option.splits)
    then show ?thesis using v labelOf_created[OF y] by auto
  qed simp
qed

lemma visitor_currentId_mono: "currentId st \<le> currentId (visitor document rt p n st)"
  using visitor_cases[of document rt p n st] by auto

lemma visit_currentId_mono:
  "currentId st \<le> currentId (visit (visitor document rt) p n st)"
  "currentId st \<le> currentId (visitChildren (visitor document rt) p i cs st)"
proof -
  let ?I = "\<lambda>s. currentId st \<le> currentId s"
  have step: "\<And>p n s. ?I s \<Longrightarrow> ?I (visitor document rt p n s)"
    using visitor_currentId_mono le_trans by blast
  show "?I (visit (visitor document rt) p n st)"
    by (rule visit_invariant(1)[where I = ?I]) (use step in auto)
  show "?I (visitChildren (visitor document rt) p i cs st)"
    by (rule visit_invariant(2)[where I = ?I]) (use step in auto)
qed

lemma bornAt_kept:
  "bornAt rt st q i \<Longrightarrow> extends st st' \<Longrightarrow> tempId st' q = tempId st q \<Longrightarrow> bornAt rt st' q i"
  unfolding bornAt_def extends_def by (metis (no_types, lifting))

text \<open>
  Every object made during the traversal of the subtree at \<open>p\<close> was made for a node of that
  subtree, which carries its id.
\<close>

lemma visit_born:
  "wellFormed st \<Longrightarrow> deref rt p = Some n \<Longrightarrow>
     currentId st \<le> i \<Longrightarrow> i < currentId (visit (visitor document rt) p n st) \<Longrightarrow>
     \<exists>q. suffix p q \<and> bornAt rt (visit (visitor document rt) p n st) q i"
  "wellFormed st \<Longrightarrow> (\<And>j. j < length cs \<Longrightarrow> deref rt ((k + j) # p) = Some (cs ! j)) \<Longrightarrow>
     currentId st \<le> i \<Longrightarrow> i < currentId (visitChildren (visitor document rt) p k cs st) \<Longrightarrow>
     \<exists>q j. k \<le> j \<and> suffix (j # p) q \<and> bornAt rt (visitChildren (visitor document rt) p k cs st) q i"
proof (induction "visitor document rt" p n st and "visitor document rt" p k cs st
       arbitrary: i and i rule: visit_visitChildren.induct)
  case (1 p s e props st)
  let ?n = "ObjectASTNode s e props"
  have v: "visitor document rt p ?n st = st" by simp
  have d: "\<And>j. j < length props \<Longrightarrow> deref rt ((0 + j) # p) = Some (props ! j)"
    using "1.prems"(2) by simp
  have "\<exists>q j. 0 \<le> j \<and> suffix (j # p) q
        \<and> bornAt rt (visitChildren (visitor document rt) p 0 props (visitor document rt p ?n st)) q i"
    by (rule "1.hyps"[OF _ d]) (use "1.prems" v in auto)
  then obtain q j where q: "suffix (j # p) q" and
     b: "bornAt rt (visitChildren (visitor document rt) p 0 props (visitor document rt p ?n st)) q i"
    by blast
  have "suffix p q" using q by (rule suffix_ConsD)
  then show ?case using b by (auto simp del: visitor.simps)
next
  case (2 p s e loc items st)
  let ?n = "ArrayASTNode s e loc items"
  let ?V = "visitor document rt"
  let ?st1 = "?V p ?n st"
  let ?st2 = "visitChildren ?V p 0 items ?st1"
  have wf1: "wellFormed ?st1" using "2.prems"(1) by (rule visitor_wellFormed)
  have d: "\<And>j. j < length items \<Longrightarrow> deref rt ((0 + j) # p) = Some (items ! j)"
    using "2.prems"(2) by simp
  have i2: "i < currentId ?st2" using "2.prems"(4) by (simp del: visitor.simps)
  show ?case
  proof (cases "currentId ?st1 \<le> i")
    case True
    have "\<exists>q j. 0 \<le> j \<and> suffix (j # p) q \<and> bornAt rt ?st2 q i"
      by (rule "2.hyps"[OF wf1 d True i2])
    then obtain q j where q: "suffix (j # p) q" and b: "bornAt rt ?st2 q i" by blast
    have "suffix p q" using q by (rule suffix_ConsD)
    then show ?thesis using b by (auto simp del: visitor.simps)
  next
    case False
    then have neq: "?st1 \<noteq> st" using "2.prems"(3) by (auto simp del: visitor.simps)
    have "?st1 = st \<or> (currentId ?st1 = Suc (currentId st) \<and> tempId ?st1 p = Some (currentId st)
      \<and> (\<exists>c. nodeMap ?st1 (currentId st) = Some c \<and> labelOf ?n = Some (cellLabel c)))"
      by (rule visitor_new[OF "2.prems"(1)])
    then have "currentId ?st1 = Suc (currentId st) \<and> tempId ?st1 p = Some (currentId st)
      \<and> (\<exists>c. nodeMap ?st1 (currentId st) = Some c \<and> labelOf ?n = Some (cellLabel c))"
    proof
      assume "?st1 = st"
      with neq show ?thesis by contradiction
    qed
    then have c1: "currentId ?st1 = Suc (currentId st)" and t1: "tempId ?st1 p = Some (currentId st)"
      and l1: "\<exists>c. nodeMap ?st1 (currentId st) = Some c \<and> labelOf ?n = Some (cellLabel c)"
      by (simp_all del: visitor.simps labelOf.simps)
    have i: "i = currentId st" using False c1 "2.prems"(3) by (simp del: visitor.simps)
    obtain c where c: "nodeMap ?st1 (currentId st) = Some c" "labelOf ?n = Some (cellLabel c)"
      using l1 by (elim exE conjE)
    have b1: "bornAt rt ?st1 p i" unfolding bornAt_def i
      by (intro conjI exI[of _ ?n] exI[of _ c]) (fact t1 "2.prems"(2) c)+
    have ext: "extends ?st1 ?st2" by (rule visit_extends(2)[OF wf1])
    have fr: "tempId ?st2 p = tempId ?st1 p"
      by (rule visit_frame(2)) (rule suffix_not_longer, simp)
    have "bornAt rt ?st2 p i" by (rule bornAt_kept[OF b1 ext fr])
    then have "suffix p p \<and> bornAt rt ?st2 p i" by simp
    then show ?thesis by (auto simp del: visitor.simps)
  qed
next
  case (3 p s e k v st)
  let ?n = "PropertyASTNode s e k v"
  let ?V = "visitor document rt"
  let ?st1 = "?V p ?n st"
  let ?st2 = "visit ?V (0 # p) v ?st1"
  have wf1: "wellFormed ?st1" using "3.prems"(1) by (rule visitor_wellFormed)
  have d: "deref rt (0 # p) = Some v" using "3.prems"(2) by simp
  have i2: "i < currentId ?st2" using "3.prems"(4) by (simp del: visitor.simps)
  show ?case
  proof (cases "currentId ?st1 \<le> i")
    case True
    have "\<exists>q. suffix (0 # p) q \<and> bornAt rt ?st2 q i"
      by (rule "3.hyps"[OF wf1 d True i2])
    then obtain q where q: "suffix (0 # p) q" and b: "bornAt rt ?st2 q i" by blast
    have "suffix p q" using q by (rule suffix_ConsD)
    then show ?thesis using b by (auto simp del: visitor.simps)
  next
    case False
    then have neq: "?st1 \<noteq> st" using "3.prems"(3) by (auto simp del: visitor.simps)
    have "?st1 = st \<or> (currentId ?st1 = Suc (currentId st) \<and> tempId ?st1 p = Some (currentId st)
      \<and> (\<exists>c. nodeMap ?st1 (currentId st) = Some c \<and> labelOf ?n = Some (cellLabel c)))"
      by (rule visitor_new[OF "3.prems"(1)])
    then have "currentId ?st1 = Suc (currentId st) \<and> tempId ?st1 p = Some (currentId st)
      \<and> (\<exists>c. nodeMap ?st1 (currentId st) = Some c \<and> labelOf ?n = Some (cellLabel c))"
    proof
      assume "?st1 = st"
      with neq show ?thesis by contradiction
    qed
    then have c1: "currentId ?st1 = Suc (currentId st)" and t1: "tempId ?st1 p = Some (currentId st)"
      and l1: "\<exists>c. nodeMap ?st1 (currentId st) = Some c \<and> labelOf ?n = Some (cellLabel c)"
      by (simp_all del: visitor.simps labelOf.simps)
    have i: "i = currentId st" using False c1 "3.prems"(3) by (simp del: visitor.simps)
    obtain c where c: "nodeMap ?st1 (currentId st) = Some c" "labelOf ?n = Some (cellLabel c)"
      using l1 by (elim exE conjE)
    have b1: "bornAt rt ?st1 p i" unfolding bornAt_def i
      by (intro conjI exI[of _ ?n] exI[of _ c]) (fact t1 "3.prems"(2) c)+
    have ext: "extends ?st1 ?st2" by (rule visit_extends(1)[OF wf1])
    have fr: "tempId ?st2 p = tempId ?st1 p"
      by (rule visit_frame(1)) (rule suffix_not_longer, simp)
    have "bornAt rt ?st2 p i" by (rule bornAt_kept[OF b1 ext fr])
    then have "suffix p p \<and> bornAt rt ?st2 p i" by simp
    then show ?thesis by (auto simp del: visitor.simps)
  qed
next
  case (4 p s e x st)
  then show ?case by simp
next
  case (5 p k st)
  then show ?case by simp
next
  case (6 p k c cs st)
  let ?V = "visitor document rt"
  let ?st1 = "visit ?V (k # p) c st"
  let ?st2 = "visitChildren ?V p (Suc k) cs ?st1"
  have wf1: "wellFormed ?st1" using "6.prems"(1) by (rule visit_wellFormed(1))
  have dc: "deref rt (k # p) = Some c" using "6.prems"(2)[of 0] by simp
  have dcs: "\<And>j. j < length cs \<Longrightarrow> deref rt ((Suc k + j) # p) = Some (cs ! j)"
    using "6.prems"(2)[of "Suc j" for j] by simp
  have i2: "i < currentId ?st2" using "6.prems"(4) by simp
  show ?case
  proof (cases "currentId ?st1 \<le> i")
    case True
    have "\<exists>q j. Suc k \<le> j \<and> suffix (j # p) q \<and> bornAt rt ?st2 q i"
      by (rule "6.hyps"(2)[OF wf1 dcs True i2])
    then obtain q j where "Suc k \<le> j" "suffix (j # p) q" "bornAt rt ?st2 q i" by blast
    then have "k \<le> j \<and> suffix (j # p) q \<and> bornAt rt ?st2 q i" by simp
    then have "\<exists>q j. k \<le> j \<and> suffix (j # p) q \<and> bornAt rt ?st2 q i" by (intro exI)
    then show ?thesis by simp
  next
    case False
    then have i1: "i < currentId ?st1" by simp
    have "\<exists>q. suffix (k # p) q \<and> bornAt rt ?st1 q i"
      by (rule "6.hyps"(1)[OF "6.prems"(1) dc "6.prems"(3) i1])
    then obtain q where q: "suffix (k # p) q" and b1: "bornAt rt ?st1 q i" by blast
    have ext: "extends ?st1 ?st2" by (rule visit_extends(2)[OF wf1])
    have fr: "tempId ?st2 q = tempId ?st1 q"
    proof (rule visit_frame(2))
      fix j assume "Suc k \<le> j"
      then have jk: "j \<noteq> k" by simp
      show "\<not> suffix (j # p) q"
      proof
        assume "suffix (j # p) q"
        then have "j = k" using q by (rule suffix_two_siblings)
        then show False using jk by contradiction
      qed
    qed
    have "bornAt rt ?st2 q i" by (rule bornAt_kept[OF b1 ext fr])
    then have "k \<le> k \<and> suffix (k # p) q \<and> bornAt rt ?st2 q i" using q by simp
    then have "\<exists>q j. k \<le> j \<and> suffix (j # p) q \<and> bornAt rt ?st2 q i" by (intro exI)
    then show ?thesis by simp
  qed
qed

lemma tagsInjective_visitor:
  "tagsBounded st \<and> tagsInjective st \<Longrightarrow>
   tagsBounded (visitor document rt p n st) \<and> tagsInjective (visitor document rt p n st)"
proof
  assume a: "tagsBounded st \<and> tagsInjective st"
  then show "tagsBounded (visitor document rt p n st)" using tagsBounded_visitor by blast
  from a show "tagsInjective (visitor document rt p n st)"
    using visitor_cases[of document rt p n st]
    unfolding tagsInjective_def tagsBounded_def
    by (auto split: if_splits) (metis less_irrefl)+
qed

lemma pass1_born:
  assumes "i < currentId (pass1 document jsonDocument tags)"
  shows "\<exists>q. bornAt (root jsonDocument) (pass1 document jsonDocument tags) q i"
proof -
  have wf: "wellFormed (initialState document jsonDocument tags)"
    by (simp add: wellFormed_def initialState_def)
  have "\<exists>q. suffix [] q \<and> bornAt (root jsonDocument)
      (visit (visitor document (root jsonDocument)) [] (root jsonDocument)
         (initialState document jsonDocument tags)) q i"
    by (rule visit_born(1)[OF wf]) (use assms in \<open>simp_all add: pass1_def initialState_def\<close>)
  then show ?thesis by (auto simp: pass1_def)
qed

lemma pass1_tagsInjective:
  "tagsInjective (pass1 document jsonDocument Map.empty)"
proof -
  let ?I = "\<lambda>s. tagsBounded s \<and> tagsInjective s"
  have "?I (pass1 document jsonDocument Map.empty)"
    unfolding pass1_def
    by (rule visit_invariant(1)[where I = ?I])
       (use tagsInjective_visitor in \<open>auto simp: tagsBounded_def tagsInjective_def initialState_def\<close>)
  then show ?thesis by simp
qed

lemma descendants_withoutId: "descendants (withoutId t) = map withoutId (objectsBelow t)"
  by (induction t) (simp add: map_concat comp_def cong: map_cong)

lemma outlineNodeOf_label:
  assumes "deref rt q = Some m" "labelOf m = Some (objectKey x, objectValue x, objectIsArray x)"
    and "tags q = Some i" "objectId x = Some i"
  shows "outlineNodeOf rt tags q x"
  using assms by (cases m) (auto simp: outlineNodeOf_def split: if_splits)

lemma getObjectTreeWithIds_linked:
  assumes e: "getObjectTreeWithIds (Some document) yamlDocument tags = Some (Inr (t, tags'))"
    and d: "firstDocument yamlDocument = Some jsonDocument"
  shows "getObjectTree (Some document) yamlDocument tags = Some (Inr (withoutId t, tags'))"
    and "idLabel t = (None, ''root'', JString ''root'', False)"
    and "x \<in> set (objectsBelow t) \<Longrightarrow> \<exists>q. outlineNodeOf (root jsonDocument) tags' q x"
    and "tags = Map.empty \<Longrightarrow> tags' q = Some i \<Longrightarrow> tags' q' = Some i \<Longrightarrow> q = q'"
    and "tags' = tempId (pass1 document jsonDocument tags)"
proof -
  let ?st = "pass1 document jsonDocument tags"
  show "getObjectTree (Some document) yamlDocument tags = Some (Inr (withoutId t, tags'))"
    using e by (simp add: getObjectTree_withoutId)
  obtain t0 where t0: "provisionalObjects ?st = Some t0" and t: "t = flattenObjects t0"
    and tg: "tags' = tempId ?st"
    using e d by (auto simp: getObjectTreeWithIds_def Let_def split: option.splits simp del: firstDocument.simps)
  show "tags' = tempId ?st" by (rule tg)
  have tl: "idLabel t0 = (None, cellLabel (rootNode ?st))"
    and dl: "\<forall>x \<in> set (objectsBelow t0). \<exists>i c'. nodeMap ?st i = Some c' \<and> idLabel x = (Some i, cellLabel c')"
    using objectOf_idLabels(1)[OF t0[unfolded provisionalObjects_def]] by auto
  show "idLabel t = (None, ''root'', JString ''root'', False)"
    using tl rootNode_pass1[of document jsonDocument tags] t by simp
  show "\<exists>q. outlineNodeOf (root jsonDocument) tags' q x" if x: "x \<in> set (objectsBelow t)"
  proof -
    from x obtain x0 where x0: "x0 \<in> set (objectsBelow t0)" "idLabel x = idLabel x0"
      using flattenObjects_idLabels[of t0] t by auto
    then obtain i c' where c': "nodeMap ?st i = Some c'" and l: "idLabel x = (Some i, cellLabel c')"
      using dl by metis
    have "i < currentId ?st" using c' wellFormed_pass1[of document jsonDocument tags]
      by (auto simp: wellFormed_def)
    from pass1_born[OF this] obtain q where "bornAt (root jsonDocument) ?st q i" by blast
    then obtain m c where q: "tempId ?st q = Some i" and m: "deref (root jsonDocument) q = Some m"
      and c: "nodeMap ?st i = Some c" and lm: "labelOf m = Some (cellLabel c)"
      by (auto simp: bornAt_def)
    have "c = c'" using c c' by simp
    then have "labelOf m = Some (objectKey x, objectValue x, objectIsArray x)"
      using lm l by (simp add: idLabel_def)
    moreover have "objectId x = Some i" using l by (simp add: idLabel_def)
    ultimately have "outlineNodeOf (root jsonDocument) tags' q x"
      using m q tg by (intro outlineNodeOf_label) auto
    then show ?thesis by blast
  qed
  show "q = q'" if "tags = Map.empty" "tags' q = Some i" "tags' q' = Some i"
    using that tg pass1_tagsInjective[of document jsonDocument]
    by (auto simp: tagsInjective_def)
qed

lemma getObjectTree_identified:
  assumes "getObjectTree document yamlDocument tags = Some (Inr (t, tags'))"
  shows "\<exists>obj. getObjectTreeWithIds document yamlDocument tags = Some (Inr (obj, tags')) \<and> withoutId obj = t"
proof -
  from assms obtain y where y: "getObjectTreeWithIds document yamlDocument tags = Some y"
    and m: "map_sum id (map_prod withoutId id) y = Inr (t, tags')"
    unfolding getObjectTree_withoutId by auto
  from m obtain z where "y = Inr z" "map_prod withoutId id z = (t, tags')"
    by (cases y) auto
  then show ?thesis using y by (cases z) auto
qed

subsection \<open>No outline node below a task\<close>

text \<open>
  Claim C3, as the code has it. The tree comes without tags. \<open>obj\<close> is the root returned,
  with the identity of its objects. A Property node with a recognized key that lies below
  a Property node \<^verbatim>\<open>task\<close>, with no Array node of a recognized location between the two,
  has no outline node anywhere in the outline: neither the root nor an object below it is
  the outline node of that node. Every object below the root is the outline node of one
  node of the syntax tree, the only node that carries its id, and that node is another
  one. (The visitor leaves at line 62, before lines 73 to 89 tag the node and make its
  outline node.)
\<close>

theorem no_node_below_task:
  assumes "getObjectTree (Some document) yamlDocument Map.empty = Some (Inr (t, tags'))"
    and "firstDocument yamlDocument = Some jsonDocument"
    and "deref (root jsonDocument) p = Some (PropertyASTNode sP eP ''task'' vP)"
    and "deref (root jsonDocument) (r @ p) = Some (PropertyASTNode s e k v)"
    and "r \<noteq> []" and "recognizedKey k"
    and "cleanBetween (root jsonDocument) p r"
  shows "\<exists>obj. getObjectTreeWithIds (Some document) yamlDocument Map.empty = Some (Inr (obj, tags'))
       \<and> withoutId obj = t
       \<and> descendants t = map withoutId (objectsBelow obj)
       \<and> (\<forall>x \<in> set (obj # objectsBelow obj). \<not> outlineNodeOf (root jsonDocument) tags' (r @ p) x)
       \<and> (\<forall>x \<in> set (objectsBelow obj).
             \<exists>q. outlineNodeOf (root jsonDocument) tags' q x \<and> q \<noteq> r @ p
                \<and> (\<forall>q'. tags' q' = objectId x \<longrightarrow> q' = q))"
proof -
  let ?st = "initialState document jsonDocument Map.empty"
  from getObjectTree_identified[OF assms(1)] obtain obj where
    obj: "getObjectTreeWithIds (Some document) yamlDocument Map.empty = Some (Inr (obj, tags'))"
    and t: "withoutId obj = t" by blast
  note link = getObjectTreeWithIds_linked[OF obj assms(2)]
  have wf: "wellFormed ?st" by (simp add: wellFormed_def initialState_def)
  have tb: "tagsBounded ?st" by (simp add: tagsBounded_def initialState_def)
  have fr: "\<And>x. tempId ?st (x @ []) = None" by (simp add: initialState_def)
  have "tempId (visit (visitor document (root jsonDocument)) [] (root jsonDocument) ?st) (r @ p @ []) = None"
    by (rule below_task_untagged(1)[OF wf tb fr assms(3,4,5,6,7)])
  then have none: "tags' (r @ p) = None" unfolding link(5) pass1_def by simp
  have a: "\<forall>x \<in> set (obj # objectsBelow obj). \<not> outlineNodeOf (root jsonDocument) tags' (r @ p) x"
    using none by (auto simp: outlineNodeOf_def)
  have b: "\<exists>q. outlineNodeOf (root jsonDocument) tags' q x \<and> q \<noteq> r @ p
                \<and> (\<forall>q'. tags' q' = objectId x \<longrightarrow> q' = q)"
    if x: "x \<in> set (objectsBelow obj)" for x
  proof -
    from link(3)[OF x] obtain q where q: "outlineNodeOf (root jsonDocument) tags' q x" by blast
    then obtain i where i: "objectId x = Some i" "tags' q = Some i"
      by (auto simp: outlineNodeOf_def)
    have "q \<noteq> r @ p" using i none by auto
    moreover have "\<forall>q'. tags' q' = objectId x \<longrightarrow> q' = q"
      using link(4)[OF refl _ i(2)] i(1) by auto
    ultimately show ?thesis using q by blast
  qed
  have c: "descendants t = map withoutId (objectsBelow obj)"
    using descendants_withoutId[of obj] t by simp
  show ?thesis using obj t a b c by blast
qed

theorem no_node_below_task_witness:
  "\<exists>t tags' obj.
     getObjectTree (Some lineDocument) \<lparr>documents = [\<lparr>root = taskScriptTree\<rparr>]\<rparr> Map.empty
       = Some (Inr (t, tags'))
     \<and> getObjectTreeWithIds (Some lineDocument) \<lparr>documents = [\<lparr>root = taskScriptTree\<rparr>]\<rparr> Map.empty
       = Some (Inr (obj, tags'))
     \<and> withoutId obj = t
     \<and> objectsBelow obj =
         [OutlineObject (Some 0) ''task'' (JObject [(''script'', JString ''x'')]) []
            \<lparr>line = 0, character = 0\<rparr> \<lparr>line = 0, character = 20\<rparr> False]
     \<and> descendants t =
         [YamlObjectNode ''task'' (JObject [(''script'', JString ''x'')]) []
            \<lparr>line = 0, character = 0\<rparr> \<lparr>line = 0, character = 20\<rparr> False]
     \<and> tags' [0] = Some 0
     \<and> outlineNodeOf taskScriptTree tags' [0] (objectsBelow obj ! 0)
     \<and> \<not> outlineNodeOf taskScriptTree tags' ([0, 0] @ [0]) (objectsBelow obj ! 0)
     \<and> \<not> outlineNodeOf taskScriptTree tags' ([0, 0] @ [0]) obj"
proof -
  obtain obj tags' where
    eo: "getObjectTreeWithIds (Some lineDocument) \<lparr>documents = [\<lparr>root = taskScriptTree\<rparr>]\<rparr> Map.empty
          = Some (Inr (obj, tags'))"
    and x: "objectsBelow obj =
         [OutlineObject (Some 0) ''task'' (JObject [(''script'', JString ''x'')]) []
            \<lparr>line = 0, character = 0\<rparr> \<lparr>line = 0, character = 20\<rparr> False]"
    and g: "tags' [0] = Some 0"
    by (simp add: getObjectTreeWithIds_def pass1_def initialState_def taskScriptTree_def
        lineDocument_def recognizedKey_def recognizedLocation_def attach_def
        register_def pushChild_def provisionalObjects_def newObjectChildren_def
        flattenObjectLoop.simps Let_def)
  have e: "getObjectTree (Some lineDocument) \<lparr>documents = [\<lparr>root = taskScriptTree\<rparr>]\<rparr> Map.empty
          = Some (Inr (withoutId obj, tags'))"
    using eo by (simp add: getObjectTree_withoutId)
  have d: "firstDocument \<lparr>documents = [\<lparr>root = taskScriptTree\<rparr>]\<rparr> = Some \<lparr>root = taskScriptTree\<rparr>"
    by simp
  have p: "deref (root \<lparr>root = taskScriptTree\<rparr>) [0]
      = Some (PropertyASTNode 0 20 ''task''
          (ObjectASTNode 6 20
             [PropertyASTNode 6 15 ''script'' (ValueASTNode 14 15 (JString ''x''))]))"
    by (simp add: taskScriptTree_def)
  have q: "deref (root \<lparr>root = taskScriptTree\<rparr>) ([0, 0] @ [0])
      = Some (PropertyASTNode 6 15 ''script'' (ValueASTNode 14 15 (JString ''x'')))"
    by (simp add: taskScriptTree_def)
  have k: "recognizedKey ''script''"
    by (simp add: recognizedKey_def)
  have c: "cleanBetween (root \<lparr>root = taskScriptTree\<rparr>) [0] [0, 0]"
    by (auto simp: cleanBetween_def Cons_eq_append_conv taskScriptTree_def)
  have l: "outlineNodeOf taskScriptTree tags' [0] (objectsBelow obj ! 0)"
    using x g by (simp add: outlineNodeOf_def taskScriptTree_def recognizedKey_def)
  show ?thesis
    using no_node_below_task [OF e d p q _ k c] e eo x g l by auto
qed

text \<open>
  Claim C3, as stated, fails: in \<^verbatim>\<open>task: {steps: [{script: x}]}\<close> the Property node
  \<^verbatim>\<open>script\<close> lies below the Property node \<^verbatim>\<open>task\<close>, which has an outline node, and
  the outline has a node for it, under the task. The Array branch of the visitor (lines
  91 to 119) does not test for a task, so the \<^verbatim>\<open>steps\<close> wrapper is made, and it is the
  nearest entry above \<^verbatim>\<open>script\<close>.
\<close>

theorem script_below_task_in_outline:
  "outlineOf (Some lineDocument) \<lparr>documents = [\<lparr>root = taskStepsTree\<rparr>]\<rparr> Map.empty
     = Some (Inr (YamlObjectNode ''root'' (JString ''root'')
         [YamlObjectNode ''task''
            (JObject [(''steps'', JArray [JObject [(''script'', JString ''x'')]])])
            [YamlObjectNode ''script'' (JString ''x'') []
               \<lparr>line = 0, character = 15\<rparr> \<lparr>line = 0, character = 24\<rparr> False]
            \<lparr>line = 0, character = 0\<rparr> \<lparr>line = 0, character = 40\<rparr> False]
         \<lparr>line = 0, character = 0\<rparr> \<lparr>line = 0, character = 40\<rparr> False))
   \<and> deref taskStepsTree [0]
       = Some (PropertyASTNode 0 40 ''task''
           (ObjectASTNode 6 40
              [PropertyASTNode 6 40 ''steps''
                 (ArrayASTNode 13 40 ''steps'' [scriptStep 15 ''x''])]))
   \<and> deref taskStepsTree ([0, 0, 0, 0, 0] @ [0])
       = Some (PropertyASTNode 15 24 ''script'' (ValueASTNode 23 24 (JString ''x'')))
   \<and> (\<exists>t tags'.
         getObjectTree (Some lineDocument) \<lparr>documents = [\<lparr>root = taskStepsTree\<rparr>]\<rparr> Map.empty
           = Some (Inr (t, tags'))
         \<and> tags' [0] = Some 0 \<and> tags' ([0, 0, 0, 0, 0] @ [0]) = Some 2)"
  by (simp add: outlineOf_def getObjectTree_def pass1_def initialState_def taskStepsTree_def
      scriptStep_def lineDocument_def recognizedKey_def recognizedLocation_def attach_def
      register_def pushChild_def provisionalTree_def newChildren_def flattenLoop.simps Let_def)

subsection \<open>The values of the outline nodes\<close>

text \<open>
  Claim C8, as the code has it. \<open>obj\<close> is the root returned, with the identity of its
  objects. The value of the root is the string \<^verbatim>\<open>root\<close> (line 41). Every object below
  the root has an id, and a node of the syntax tree carries that id: for an array wrapper
  it is an Array node with the location that is the key of the wrapper, and the value of
  the wrapper is \<^verbatim>\<open>null\<close> (line 106); for any other object it is a Property node with
  the key of the object, and the value of the object is what \<^verbatim>\<open>getValue()\<close> reads out
  of the value of that Property node (line 72), not converted to a string. When the tree
  came without tags that node is the only one that carries the id.
\<close>

theorem outline_values:
  assumes "getObjectTree (Some document) yamlDocument tags = Some (Inr (t, tags'))"
    and "firstDocument yamlDocument = Some jsonDocument"
  shows "\<exists>obj. getObjectTreeWithIds (Some document) yamlDocument tags = Some (Inr (obj, tags'))
       \<and> withoutId obj = t
       \<and> descendants t = map withoutId (objectsBelow obj)
       \<and> nodeValue t = JString ''root''
       \<and> (\<forall>x \<in> set (objectsBelow obj).
             \<exists>q. objectId x \<noteq> None \<and> tags' q = objectId x
                \<and> (if isArray (withoutId x)
                    then nodeValue (withoutId x) = JNull
                       \<and> (\<exists>s e items. deref (root jsonDocument) q
                                          = Some (ArrayASTNode s e (key (withoutId x)) items))
                    else (\<exists>s e v. deref (root jsonDocument) q
                                     = Some (PropertyASTNode s e (key (withoutId x)) v)
                              \<and> nodeValue (withoutId x) = getValue v))
                \<and> (tags = Map.empty \<longrightarrow> (\<forall>q'. tags' q' = objectId x \<longrightarrow> q' = q)))"
proof -
  from getObjectTree_identified[OF assms(1)] obtain obj where
    obj: "getObjectTreeWithIds (Some document) yamlDocument tags = Some (Inr (obj, tags'))"
    and t: "withoutId obj = t" by blast
  note link = getObjectTreeWithIds_linked[OF obj assms(2)]
  have rootv: "nodeValue t = JString ''root''"
    using link(2) t by (auto simp: idLabel_def)
  have b: "\<exists>q. objectId x \<noteq> None \<and> tags' q = objectId x
                \<and> (if isArray (withoutId x)
                    then nodeValue (withoutId x) = JNull
                       \<and> (\<exists>s e items. deref (root jsonDocument) q
                                          = Some (ArrayASTNode s e (key (withoutId x)) items))
                    else (\<exists>s e v. deref (root jsonDocument) q
                                     = Some (PropertyASTNode s e (key (withoutId x)) v)
                              \<and> nodeValue (withoutId x) = getValue v))
                \<and> (tags = Map.empty \<longrightarrow> (\<forall>q'. tags' q' = objectId x \<longrightarrow> q' = q))"
    if x: "x \<in> set (objectsBelow obj)" for x
  proof -
    from link(3)[OF x] obtain q where q: "outlineNodeOf (root jsonDocument) tags' q x" by blast
    then obtain i where i: "objectId x = Some i" "tags' q = Some i"
      by (auto simp: outlineNodeOf_def)
    have u: "tags = Map.empty \<longrightarrow> (\<forall>q'. tags' q' = objectId x \<longrightarrow> q' = q)"
      using link(4)[OF _ _ i(2)] i(1) by auto
    have "if isArray (withoutId x)
                    then nodeValue (withoutId x) = JNull
                       \<and> (\<exists>s e items. deref (root jsonDocument) q
                                          = Some (ArrayASTNode s e (key (withoutId x)) items))
                    else (\<exists>s e v. deref (root jsonDocument) q
                                     = Some (PropertyASTNode s e (key (withoutId x)) v)
                              \<and> nodeValue (withoutId x) = getValue v)"
      using q by (auto simp: outlineNodeOf_def split: option.splits ASTNode.splits)
    then show ?thesis using i u by (intro exI[of _ q]) simp
  qed
  have c: "descendants t = map withoutId (objectsBelow obj)"
    using descendants_withoutId[of obj] t by simp
  show ?thesis using obj t rootv b c by blast
qed

theorem outline_values_witness:
  "\<exists>t tags' obj.
     getObjectTree (Some lineDocument) \<lparr>documents = [\<lparr>root = twoScriptsTree\<rparr>]\<rparr> Map.empty
       = Some (Inr (t, tags'))
     \<and> getObjectTreeWithIds (Some lineDocument) \<lparr>documents = [\<lparr>root = twoScriptsTree\<rparr>]\<rparr> Map.empty
       = Some (Inr (obj, tags'))
     \<and> withoutId obj = t
     \<and> nodeValue t = JString ''root''
     \<and> objectsBelow obj =
         [OutlineObject (Some 1) ''script'' (JString ''a'') []
            \<lparr>line = 0, character = 9\<rparr> \<lparr>line = 0, character = 18\<rparr> False,
          OutlineObject (Some 2) ''script'' (JString ''b'') []
            \<lparr>line = 0, character = 20\<rparr> \<lparr>line = 0, character = 29\<rparr> False]
     \<and> descendants t =
         [YamlObjectNode ''script'' (JString ''a'') []
            \<lparr>line = 0, character = 9\<rparr> \<lparr>line = 0, character = 18\<rparr> False,
          YamlObjectNode ''script'' (JString ''b'') []
            \<lparr>line = 0, character = 20\<rparr> \<lparr>line = 0, character = 29\<rparr> False]
     \<and> tags' [0, 0, 0, 0] = Some 1 \<and> tags' [0, 1, 0, 0] = Some 2
     \<and> deref twoScriptsTree [0, 0, 0, 0]
          = Some (PropertyASTNode 9 18 ''script'' (ValueASTNode 17 18 (JString ''a'')))
     \<and> deref twoScriptsTree [0, 1, 0, 0]
          = Some (PropertyASTNode 20 29 ''script'' (ValueASTNode 28 29 (JString ''b'')))"
proof -
  obtain obj tags' where
    eo: "getObjectTreeWithIds (Some lineDocument) \<lparr>documents = [\<lparr>root = twoScriptsTree\<rparr>]\<rparr> Map.empty
          = Some (Inr (obj, tags'))"
    and x: "objectsBelow obj =
         [OutlineObject (Some 1) ''script'' (JString ''a'') []
            \<lparr>line = 0, character = 9\<rparr> \<lparr>line = 0, character = 18\<rparr> False,
          OutlineObject (Some 2) ''script'' (JString ''b'') []
            \<lparr>line = 0, character = 20\<rparr> \<lparr>line = 0, character = 29\<rparr> False]"
    and g: "tags' [0, 0, 0, 0] = Some 1" "tags' [0, 1, 0, 0] = Some 2"
    by (simp add: getObjectTreeWithIds_def pass1_def initialState_def twoScriptsTree_def
        scriptStep_def lineDocument_def recognizedKey_def recognizedLocation_def attach_def
        register_def pushChild_def provisionalObjects_def newObjectChildren_def
        flattenObjectLoop.simps Let_def)
  have e: "getObjectTree (Some lineDocument) \<lparr>documents = [\<lparr>root = twoScriptsTree\<rparr>]\<rparr> Map.empty
          = Some (Inr (withoutId obj, tags'))"
    using eo by (simp add: getObjectTree_withoutId)
  have d: "firstDocument \<lparr>documents = [\<lparr>root = twoScriptsTree\<rparr>]\<rparr> = Some \<lparr>root = twoScriptsTree\<rparr>"
    by simp
  have n: "deref twoScriptsTree [0, 0, 0, 0]
          = Some (PropertyASTNode 9 18 ''script'' (ValueASTNode 17 18 (JString ''a'')))"
     "deref twoScriptsTree [0, 1, 0, 0]
          = Some (PropertyASTNode 20 29 ''script'' (ValueASTNode 28 29 (JString ''b'')))"
    by (simp_all add: twoScriptsTree_def scriptStep_def)
  show ?thesis
    using outline_values [OF e d] e eo x g n by auto
qed

text \<open>
  Claim C8, as stated, fails on \<^verbatim>\<open>job: 1\<close>: the value of the root is the string
  \<^verbatim>\<open>root\<close>, not absent, and the value of the node \<^verbatim>\<open>job\<close> is the number 1, not the
  string \<^verbatim>\<open>"1"\<close>.
\<close>

theorem root_and_number_values:
  "\<exists>t. outlineOf (Some lineDocument) \<lparr>documents = [\<lparr>root = numberJobTree\<rparr>]\<rparr> Map.empty = Some (Inr t)
     \<and> nodeValue t = JString ''root'' \<and> nodeValue t \<noteq> JNull
     \<and> map key (children t) = [''job'']
     \<and> map nodeValue (children t) = [JNumber 1]
     \<and> map nodeValue (children t) \<noteq> [JString ''1'']"
  by (simp add: outlineOf_def getObjectTree_def pass1_def initialState_def numberJobTree_def
      lineDocument_def recognizedKey_def attach_def register_def provisionalTree_def
      newChildren_def flattenLoop.simps Let_def)

subsection \<open>The tags after the call\<close>

text \<open>A second traversal, on the tree with the tags that a first one has left.\<close>

lemma mapped_same:
  "nodeMap b = nodeMap a \<Longrightarrow> tempId b x = tempId a x \<Longrightarrow> mapped b x = mapped a x"
  by (simp split: option.splits)

lemma nearestMapped_same:
  assumes "nodeMap b = nodeMap a" "\<And>x. suffix x q \<Longrightarrow> tempId b x = tempId a x"
  shows "nearestMapped b (Some q) = nearestMapped a (Some q)"
  using assms(2)
proof (induction q)
  case Nil
  have "mapped b [] = mapped a []" using assms(1) Nil by (intro mapped_same) simp_all
  then show ?case by (simp del: mapped.simps)
next
  case (Cons j q)
  have m: "mapped b (j # q) = mapped a (j # q)" using assms(1) Cons.prems by (intro mapped_same) simp_all
  have "nearestMapped b (Some q) = nearestMapped a (Some q)"
    using Cons.IH Cons.prems by (meson suffix_ConsI)
  then show ?case using m by (simp del: mapped.simps split: option.splits)
qed

lemma nearestMapped_parent_same:
  assumes "nodeMap b = nodeMap a" "\<And>x. suffix x p \<Longrightarrow> x \<noteq> p \<Longrightarrow> tempId b x = tempId a x"
  shows "nearestMapped b (parent p) = nearestMapped a (parent p)"
proof (cases p)
  case Nil
  then show ?thesis by simp
next
  case (Cons j q)
  have "tempId b x = tempId a x" if "suffix x q" for x
  proof -
    have "suffix x p" using that Cons by (simp add: suffix_ConsI)
    moreover have "x \<noteq> p" using that Cons suffix_not_longer[of x q j] by auto
    ultimately show ?thesis using assms(2) by simp
  qed
  then show ?thesis using nearestMapped_same[OF assms(1)] Cons by simp
qed

lemma register_retagged:
  "T p = Some (currentId a) \<Longrightarrow> register (a\<lparr>tempId := T\<rparr>) p y = (register a p y)\<lparr>tempId := T\<rparr>"
  by (simp add: register_def fun_upd_idem)

lemma attach_retagged: "attach (st\<lparr>tempId := T\<rparr>) po i = (attach st po i)\<lparr>tempId := T\<rparr>"
  by (auto simp: attach_def split: option.splits)

text \<open>The visitor on a tree that carries the tags \<open>T\<close> of an earlier run already.\<close>

lemma visitor_retagged:
  assumes above: "\<And>x. suffix x p \<Longrightarrow> x \<noteq> p \<Longrightarrow> T x = tempId a x"
    and here: "T p = tempId (visitor document rt p m a) p"
  shows "visitor document rt p m (a\<lparr>tempId := T\<rparr>) = (visitor document rt p m a)\<lparr>tempId := T\<rparr>"
proof -
  let ?b = "a\<lparr>tempId := T\<rparr>"
  have nm: "nearestMapped ?b (parent p) = nearestMapped a (parent p)"
    by (rule nearestMapped_parent_same) (simp_all add: above)
  show ?thesis
  proof (cases m)
    case (PropertyASTNode s e k v)
    let ?n = "case nearestObject rt (parent p) of None \<Rightarrow> PropertyASTNode s e k v | Some m \<Rightarrow> m"
    let ?y = "\<lparr>n_key = k, n_value = getValue v, n_children = [],
               n_startPosition = positionAt document (nstart ?n),
               n_endPosition = positionAt document (nend ?n), n_isArray = False\<rparr>"
    show ?thesis
    proof (cases "recognizedKey k \<and>
        \<not> (case nearestMapped a (parent p) of Some (pid, c) \<Rightarrow> n_key c = ''task'' | None \<Rightarrow> False)")
      case True
      have va: "visitor document rt p m a
          = attach (register a p ?y) (nearestMapped a (parent p)) (currentId a)"
        using True PropertyASTNode by (simp add: Let_def)
      have vb: "visitor document rt p m ?b
          = attach (register ?b p ?y) (nearestMapped a (parent p)) (currentId a)"
        using True PropertyASTNode nm by (simp add: Let_def)
      have "T p = Some (currentId a)" using here va by simp
      then show ?thesis unfolding va vb by (simp add: register_retagged attach_retagged)
    next
      case False
      then show ?thesis using PropertyASTNode nm by (auto simp: Let_def)
    qed
  next
    case (ArrayASTNode s e loc items)
    let ?y = "\<lparr>n_key = loc, n_value = JNull, n_children = [],
               n_startPosition = positionAt document s,
               n_endPosition = positionAt document e, n_isArray = True\<rparr>"
    show ?thesis
    proof (cases "recognizedLocation loc")
      case True
      have va: "visitor document rt p m a
          = attach (register a p ?y) (nearestMapped a (parent p)) (currentId a)"
        using True ArrayASTNode by (simp add: Let_def)
      have vb: "visitor document rt p m ?b
          = attach (register ?b p ?y) (nearestMapped a (parent p)) (currentId a)"
        using True ArrayASTNode nm by (simp add: Let_def)
      have "T p = Some (currentId a)" using here va by simp
      then show ?thesis unfolding va vb by (simp add: register_retagged attach_retagged)
    next
      case False
      then show ?thesis using ArrayASTNode by simp
    qed
  qed simp_all
qed

text \<open>
  The traversal from the store of the state \<open>a\<close> on a tree that carries the tags \<open>T\<close>,
  when \<open>T\<close> is what the traversal from \<open>a\<close> leaves in the subtree, and what \<open>a\<close> has above.
\<close>

lemma visit_retagged:
  "(\<And>x. suffix x p \<Longrightarrow> x \<noteq> p \<Longrightarrow> T x = tempId a x) \<Longrightarrow>
   (\<And>y. suffix p y \<Longrightarrow> T y = tempId (visit (visitor document rt) p n a) y) \<Longrightarrow>
     visit (visitor document rt) p n (a\<lparr>tempId := T\<rparr>)
       = (visit (visitor document rt) p n a)\<lparr>tempId := T\<rparr>"
  "(\<And>x. suffix x p \<Longrightarrow> T x = tempId a x) \<Longrightarrow>
   (\<And>y j. i \<le> j \<Longrightarrow> suffix (j # p) y \<Longrightarrow>
      T y = tempId (visitChildren (visitor document rt) p i cs a) y) \<Longrightarrow>
     visitChildren (visitor document rt) p i cs (a\<lparr>tempId := T\<rparr>)
       = (visitChildren (visitor document rt) p i cs a)\<lparr>tempId := T\<rparr>"
proof (induction "visitor document rt" p n a and "visitor document rt" p i cs a
       rule: visit_visitChildren.induct)
  case (1 p s e props a)
  let ?m = "ObjectASTNode s e props"
  let ?a1 = "visitor document rt p ?m a"
  have here: "T p = tempId ?a1 p"
  proof -
    have "T p = tempId (visit (visitor document rt) p ?m a) p" using "1.prems"(2)[of p] by (simp del: visitor.simps)
    also have "\<dots> = tempId ?a1 p"
      using visit_frame(2)[of 0 p p document rt props ?a1] suffix_not_longer[of p p] by (simp del: visitor.simps)
    finally show ?thesis .
  qed
  have v: "visitor document rt p ?m (a\<lparr>tempId := T\<rparr>) = ?a1\<lparr>tempId := T\<rparr>"
    using "1.prems"(1) here by (rule visitor_retagged)
  have above: "T x = tempId ?a1 x" if "suffix x p" for x
  proof (cases "x = p")
    case True then show ?thesis using here by simp
  next
    case False
    then show ?thesis using "1.prems"(1)[OF that] visitor_tempId_other[of x p] by (simp del: visitor.simps)
  qed
  have below: "T y = tempId (visitChildren (visitor document rt) p 0 props ?a1) y"
    if "suffix (j # p) y" for y j
    using "1.prems"(2)[of y] that by (simp add: suffix_ConsD del: visitor.simps)
  have "visitChildren (visitor document rt) p 0 props (?a1\<lparr>tempId := T\<rparr>)
      = (visitChildren (visitor document rt) p 0 props ?a1)\<lparr>tempId := T\<rparr>"
    using "1.hyps" above below by blast
  then show ?case using v by (simp del: visitor.simps)
next
  case (2 p s e loc items a)
  let ?m = "ArrayASTNode s e loc items"
  let ?a1 = "visitor document rt p ?m a"
  have here: "T p = tempId ?a1 p"
  proof -
    have "T p = tempId (visit (visitor document rt) p ?m a) p" using "2.prems"(2)[of p] by (simp del: visitor.simps)
    also have "\<dots> = tempId ?a1 p"
      using visit_frame(2)[of 0 p p document rt items ?a1] suffix_not_longer[of p p] by (simp del: visitor.simps)
    finally show ?thesis .
  qed
  have v: "visitor document rt p ?m (a\<lparr>tempId := T\<rparr>) = ?a1\<lparr>tempId := T\<rparr>"
    using "2.prems"(1) here by (rule visitor_retagged)
  have above: "T x = tempId ?a1 x" if "suffix x p" for x
  proof (cases "x = p")
    case True then show ?thesis using here by simp
  next
    case False
    then show ?thesis using "2.prems"(1)[OF that] visitor_tempId_other[of x p] by (simp del: visitor.simps)
  qed
  have below: "T y = tempId (visitChildren (visitor document rt) p 0 items ?a1) y"
    if "suffix (j # p) y" for y j
    using "2.prems"(2)[of y] that by (simp add: suffix_ConsD del: visitor.simps)
  have "visitChildren (visitor document rt) p 0 items (?a1\<lparr>tempId := T\<rparr>)
      = (visitChildren (visitor document rt) p 0 items ?a1)\<lparr>tempId := T\<rparr>"
    using "2.hyps" above below by blast
  then show ?case using v by (simp del: visitor.simps)
next
  case (3 p s e k v' a)
  let ?m = "PropertyASTNode s e k v'"
  let ?a1 = "visitor document rt p ?m a"
  have here: "T p = tempId ?a1 p"
  proof -
    have "T p = tempId (visit (visitor document rt) p ?m a) p" using "3.prems"(2)[of p] by (simp del: visitor.simps)
    also have "\<dots> = tempId ?a1 p"
      using visit_frame(1)[of "0 # p" p document rt v' ?a1] suffix_not_longer[of p p] by (simp del: visitor.simps)
    finally show ?thesis .
  qed
  have v: "visitor document rt p ?m (a\<lparr>tempId := T\<rparr>) = ?a1\<lparr>tempId := T\<rparr>"
    using "3.prems"(1) here by (rule visitor_retagged)
  have above: "T x = tempId ?a1 x" if "suffix x (0 # p)" "x \<noteq> 0 # p" for x
  proof -
    have sx: "suffix x p" using that by (simp add: suffix_Cons)
    show ?thesis
    proof (cases "x = p")
      case True then show ?thesis using here by simp
    next
      case False
      then show ?thesis using "3.prems"(1)[OF sx] visitor_tempId_other[of x p] by (simp del: visitor.simps)
    qed
  qed
  have below: "T y = tempId (visit (visitor document rt) (0 # p) v' ?a1) y"
    if "suffix (0 # p) y" for y
    using "3.prems"(2)[of y] that by (simp add: suffix_ConsD del: visitor.simps)
  have "visit (visitor document rt) (0 # p) v' (?a1\<lparr>tempId := T\<rparr>)
      = (visit (visitor document rt) (0 # p) v' ?a1)\<lparr>tempId := T\<rparr>"
    using "3.hyps" above below by blast
  then show ?case using v by (simp del: visitor.simps)
next
  case (4 p s e x a)
  then show ?case by simp
next
  case (5 p i a)
  then show ?case by simp
next
  case (6 p i c cs a)
  let ?a1 = "visit (visitor document rt) (i # p) c a"
  have above1: "T x = tempId a x" if "suffix x (i # p)" "x \<noteq> i # p" for x
    using "6.prems"(1)[of x] that by (simp add: suffix_Cons)
  have below1: "T y = tempId ?a1 y" if "suffix (i # p) y" for y
  proof -
    have "T y = tempId (visitChildren (visitor document rt) p (Suc i) cs ?a1) y"
      using "6.prems"(2)[of i y] that by simp
    also have "\<dots> = tempId ?a1 y"
    proof (rule visit_frame(2))
      fix j assume "Suc i \<le> j"
      then show "\<not> suffix (j # p) y" using suffix_two_siblings[OF that, of j] by auto
    qed
    finally show ?thesis .
  qed
  have v1: "visit (visitor document rt) (i # p) c (a\<lparr>tempId := T\<rparr>) = ?a1\<lparr>tempId := T\<rparr>"
    using "6.hyps"(1) above1 below1 by blast
  have above2: "T x = tempId ?a1 x" if "suffix x p" for x
  proof -
    have "\<not> suffix (i # p) x" using that by (rule suffix_not_longer)
    then have "tempId ?a1 x = tempId a x" by (rule visit_frame(1))
    then show ?thesis using "6.prems"(1)[OF that] by simp
  qed
  have below2: "T y = tempId (visitChildren (visitor document rt) p (Suc i) cs ?a1) y"
    if "Suc i \<le> j" "suffix (j # p) y" for y j
    using "6.prems"(2)[of j y] that by simp
  have "visitChildren (visitor document rt) p (Suc i) cs (?a1\<lparr>tempId := T\<rparr>)
      = (visitChildren (visitor document rt) p (Suc i) cs ?a1)\<lparr>tempId := T\<rparr>"
    using "6.hyps"(2) above2 below2 by blast
  then show ?case using v1 by simp
qed

lemma pass1_retagged:
  "pass1 document jsonDocument (tempId (pass1 document jsonDocument tags))
     = pass1 document jsonDocument tags"
proof -
  let ?a = "initialState document jsonDocument tags"
  let ?V = "visitor document (root jsonDocument)"
  let ?T = "tempId (visit ?V [] (root jsonDocument) ?a)"
  have i: "initialState document jsonDocument ?T = ?a\<lparr>tempId := ?T\<rparr>"
    by (simp add: initialState_def)
  have "visit ?V [] (root jsonDocument) (?a\<lparr>tempId := ?T\<rparr>)
      = (visit ?V [] (root jsonDocument) ?a)\<lparr>tempId := ?T\<rparr>"
    by (rule visit_retagged(1)) simp_all
  then show ?thesis unfolding pass1_def i by simp
qed

lemma getObjectTree_again:
  assumes "getObjectTree (Some document) yamlDocument tags = Some (Inr (t, tags'))"
  shows "getObjectTree (Some document) yamlDocument tags' = Some (Inr (t, tags'))"
proof -
  obtain jsonDocument where d: "firstDocument yamlDocument = Some jsonDocument"
    using assms by (auto simp: getObjectTree_def split: option.splits simp del: firstDocument.simps)
  then have t: "tags' = tempId (pass1 document jsonDocument tags)"
    using assms by (auto simp: getObjectTree_def Let_def split: option.splits simp del: firstDocument.simps)
  show ?thesis using assms d unfolding t
    by (simp add: getObjectTree_def pass1_retagged Let_def del: firstDocument.simps)
qed

text \<open>
  Claim C9, as the code has it. \<^verbatim>\<open>getObjectTree\<close> removes no tag: a node that carries a
  tag before the call carries one after it, and after the call every Array node with a
  recognized location carries the tag it was given (lines 74 and 103 write the tags, no
  line deletes them). The tags that a call leaves do not change what the next call on the
  same tree returns: the same root, and the same tags again.
\<close>

theorem getObjectTree_leaves_tags:
  assumes "getObjectTree (Some document) yamlDocument tags = Some (Inr (t, tags'))"
    and "firstDocument yamlDocument = Some jsonDocument"
  shows "(\<forall>q. tags q \<noteq> None \<longrightarrow> tags' q \<noteq> None)
       \<and> (\<forall>q s e loc items. deref (root jsonDocument) q = Some (ArrayASTNode s e loc items)
             \<and> recognizedLocation loc \<longrightarrow> tags' q \<noteq> None)
       \<and> getObjectTree (Some document) yamlDocument tags' = Some (Inr (t, tags'))"
proof -
  have t: "tags' = tempId (pass1 document jsonDocument tags)"
    using assms by (auto simp: getObjectTree_def Let_def split: option.splits simp del: firstDocument.simps)
  have "tags q \<noteq> None \<Longrightarrow> tags' q \<noteq> None" for q
    unfolding t pass1_def by (rule visit_tempId_kept) (simp add: initialState_def)
  moreover have "tags' q \<noteq> None"
    if "deref (root jsonDocument) q = Some (ArrayASTNode s e loc items)" "recognizedLocation loc"
    for q s e loc items
    using visit_tags_arrays(1)[OF that, of document "root jsonDocument" "[]"] unfolding t pass1_def by simp
  ultimately show ?thesis using getObjectTree_again[OF assms(1)] by blast
qed

theorem getObjectTree_leaves_tags_witness:
  "\<exists>t tags'.
     getObjectTree (Some lineDocument) \<lparr>documents = [\<lparr>root = stepsTree\<rparr>]\<rparr> [[0] \<mapsto> 5]
       = Some (Inr (t, tags'))
     \<and> tags' [0] \<noteq> None \<and> tags' [0, 0] \<noteq> None
     \<and> getObjectTree (Some lineDocument) \<lparr>documents = [\<lparr>root = stepsTree\<rparr>]\<rparr> tags'
       = Some (Inr (t, tags'))"
proof -
  obtain t tags' where
    e: "getObjectTree (Some lineDocument) \<lparr>documents = [\<lparr>root = stepsTree\<rparr>]\<rparr> [[0] \<mapsto> 5]
          = Some (Inr (t, tags'))"
    using getObjectTree_returns[of "Some lineDocument" "\<lparr>documents = [\<lparr>root = stepsTree\<rparr>]\<rparr>"
        "[[0] \<mapsto> 5]"]
    by (auto simp: getObjectTree_def Let_def split: option.splits)
  have d: "firstDocument \<lparr>documents = [\<lparr>root = stepsTree\<rparr>]\<rparr> = Some \<lparr>root = stepsTree\<rparr>"
    by simp
  have a: "deref (root \<lparr>root = stepsTree\<rparr>) [0, 0]
             = Some (ArrayASTNode 7 20 ''steps'' [scriptStep 9 ''a''])"
    by (simp add: stepsTree_def)
  have r: "recognizedLocation ''steps''"
    by (simp add: recognizedLocation_def)
  show ?thesis
    using getObjectTree_leaves_tags [OF e d] a r e by auto
qed

text \<open>
  Claim C9, as stated, fails: after the call for \<^verbatim>\<open>job: A\<close> on a tree without tags, the
  Property node \<^verbatim>\<open>job\<close> carries the tag 0.
\<close>

theorem getObjectTree_tag_remains:
  "\<exists>t tags'.
     getObjectTree (Some lineDocument) \<lparr>documents = [\<lparr>root = jobTree\<rparr>]\<rparr> Map.empty
       = Some (Inr (t, tags'))
     \<and> tags' [0] = Some 0"
  by (simp add: getObjectTree_def pass1_def initialState_def jobTree_def lineDocument_def
      recognizedKey_def attach_def register_def provisionalTree_def newChildren_def
      flattenLoop.simps Let_def)

end
